theory Spec2Isabelle
  imports Main
begin

section \<open>Data model of fasta2genes\<close>

text \<open>
  The two named tuples of the program. \<open>GeneInfo\<close> is
  \<^verbatim>\<open>namedtuple('GeneInfo', 'name start end')\<close>; its fields carry the names the
  index reader gives them (\<open>gname\<close>, \<open>gstart\<close>, \<open>gend\<close>).  Coordinates are Python
  integers, hence \<open>int\<close>.  \<open>SpeciesInfo\<close> is
  \<^verbatim>\<open>namedtuple('SpeciesInfo', 'name, sequence')\<close>; it is used both for a species
  read from a fasta file and for a gene extracted from it.  Python 2 byte strings are
  \<open>string\<close>.
\<close>

record GeneInfo =
  gname :: string
  gstart :: int
  gend :: int

record SpeciesInfo =
  name :: string
  sequence :: string

section \<open>Errors\<close>

text \<open>
  The exceptions the program can raise on its inputs.  \<open>MemoryError\<close>, which any
  allocation may raise when the machine has no memory left, is not an outcome of the
  program text and is not modelled.
\<close>

datatype py_error = IndexError | ValueError | KeyError | OverflowError

section \<open>The string operations the program calls\<close>

text \<open>
  Index normalisation of a Python slice bound against a sequence of length \<open>n\<close>:
  a negative bound counts from the end, and every bound is clamped into \<open>0..n\<close>.
\<close>

definition slice_bound :: "int \<Rightarrow> nat \<Rightarrow> nat" where
  "slice_bound i n = (if i < 0 then nat (max 0 (i + int n)) else min (nat i) n)"

text \<open>\<^verbatim>\<open>s[i:j]\<close>: never raises; empty when the normalised bounds cross.\<close>

definition str_slice :: "string \<Rightarrow> int \<Rightarrow> int \<Rightarrow> string" where
  "str_slice s i j =
     (let lo = slice_bound i (length s); hi = slice_bound j (length s)
      in take (hi - lo) (drop lo s))"

text \<open>\<^verbatim>\<open>s.replace(a, b)\<close> for one-character \<open>a\<close> and \<open>b\<close>.\<close>

definition str_replace :: "char \<Rightarrow> char \<Rightarrow> string \<Rightarrow> string" where
  "str_replace a b s = map (\<lambda>c. if c = a then b else c) s"

text \<open>\<^verbatim>\<open>s.lstrip(c)\<close> and \<^verbatim>\<open>s.rstrip(c)\<close> for a one-character argument.\<close>

definition str_lstrip :: "char \<Rightarrow> string \<Rightarrow> string" where
  "str_lstrip c s = dropWhile (\<lambda>d. d = c) s"

definition str_rstrip :: "char \<Rightarrow> string \<Rightarrow> string" where
  "str_rstrip c s = rev (dropWhile (\<lambda>d. d = c) (rev s))"

text \<open>
  \<^verbatim>\<open>sys.maxsize\<close>, the largest index-sized integer, here of a 64-bit CPython (a
  32-bit one has \<open>2 ^ 31 - 1\<close>).
\<close>

definition maxsize :: int where
  "maxsize = 2 ^ 63 - 1"

text \<open>
  \<^verbatim>\<open>c * k\<close>: the repeat count must fit an index-sized integer, otherwise
  \<open>OverflowError\<close> is raised; the empty string when \<open>k \<le> 0\<close>.
\<close>

definition str_repeat :: "char \<Rightarrow> int \<Rightarrow> py_error + string" where
  "str_repeat c k =
     (if maxsize < k \<or> k < - maxsize - 1 then Inl OverflowError
      else Inr (replicate (nat k) c))"

text \<open>\<^verbatim>\<open>s.startswith(c)\<close> and \<^verbatim>\<open>s.count(c)\<close> for a one-character argument.\<close>

definition str_startswith :: "string \<Rightarrow> char \<Rightarrow> bool" where
  "str_startswith s c = (case s of [] \<Rightarrow> False | d # _ \<Rightarrow> d = c)"

definition str_count :: "string \<Rightarrow> char \<Rightarrow> nat" where
  "str_count s c = length (filter (\<lambda>d. d = c) s)"

section \<open>The gene extraction engine\<close>

text \<open>
  \<open>isValidGene\<close>, statement by statement.  The global \<open>debug\<close> flag only selects what
  is printed, so the prints are left out, here and below.
\<close>

definition isValidGene :: "SpeciesInfo \<Rightarrow> bool" where
  "isValidGene gene =
     (if str_startswith (sequence gene) (CHR ''X'') then
        (if str_count (sequence gene) (CHR ''X'') = length (sequence gene) then False
         else True)
      else True)"

text \<open>
  \<open>extractGene\<close>, statement by statement.  The slice, \<open>replace\<close>, \<open>lstrip\<close> and
  \<open>rstrip\<close> cannot raise; each of the two repetitions \<^verbatim>\<open>'X' * (genelen - len(seq))\<close>
  raises \<open>OverflowError\<close> when its count does not fit, and the exception leaves the
  function.
\<close>

definition extractGene :: "SpeciesInfo \<Rightarrow> GeneInfo \<Rightarrow> py_error + SpeciesInfo" where
  "extractGene species gidx =
     (let seq0 = str_slice (sequence species) (gstart gidx - 1) (gend gidx);
          genelen = gend gidx - gstart gidx + 1;
          seq1 = str_replace (CHR ''?'') (CHR ''X'') seq0;
          seq2 = str_lstrip (CHR ''-'') seq1
      in case str_repeat (CHR ''X'') (genelen - int (length seq2)) of
           Inl e \<Rightarrow> Inl e
         | Inr endseq \<Rightarrow>
             (let seq3 = endseq @ seq2;
                  seq4 = str_rstrip (CHR ''-'') seq3
              in case str_repeat (CHR ''X'') (genelen - int (length seq4)) of
                   Inl e \<Rightarrow> Inl e
                 | Inr endseq2 \<Rightarrow>
                     (let seq5 = seq4 @ endseq2
                      in Inr \<lparr>name = name species, sequence = seq5\<rparr>)))"

section \<open>The aggregator\<close>

text \<open>
  The dictionary \<open>gene_species\<close> of \<open>processFastaFile\<close>: from a gene name to the list of
  the genes extracted for it.
\<close>

type_synonym gene_dict = "string \<rightharpoonup> SpeciesInfo list"

text \<open>
  \<open>addSpeciesToGeneArray\<close>: the loop over \<open>gene_indexes\<close>.  An exception of
  \<open>extractGene\<close> leaves the loop.  \<^verbatim>\<open>genelist[g.name]\<close> raises \<open>KeyError\<close> for a
  name that is not a key; \<open>append\<close> adds at the end of the list stored there.
\<close>

fun addSpeciesToGeneArray :: "SpeciesInfo \<Rightarrow> GeneInfo list \<Rightarrow> gene_dict \<Rightarrow> py_error + gene_dict" where
  "addSpeciesToGeneArray species [] genelist = Inr genelist"
| "addSpeciesToGeneArray species (g # gs) genelist =
     (case extractGene species g of
        Inl e \<Rightarrow> Inl e
      | Inr gene \<Rightarrow>
          if isValidGene gene then
            (case genelist (gname g) of
               None \<Rightarrow> Inl KeyError
             | Some l \<Rightarrow> addSpeciesToGeneArray species gs (genelist(gname g \<mapsto> l @ [gene])))
          else addSpeciesToGeneArray species gs genelist)"

text \<open>
  \<open>processFastaFile\<close> in three parts.  The first loop stores an empty list under every
  gene name.  \<open>readSpecies\<close> reads the fasta file; its result, \<open>species_list\<close>, is the
  argument here.  The second loop calls \<open>addSpeciesToGeneArray\<close> for one species after
  the other.  The value is \<open>gene_species\<close> as the writing loop receives it.
\<close>

fun init_gene_species :: "GeneInfo list \<Rightarrow> gene_dict \<Rightarrow> gene_dict" where
  "init_gene_species [] gene_species = gene_species"
| "init_gene_species (g # gs) gene_species = init_gene_species gs (gene_species(gname g \<mapsto> []))"

fun add_species_list :: "SpeciesInfo list \<Rightarrow> GeneInfo list \<Rightarrow> gene_dict \<Rightarrow> py_error + gene_dict" where
  "add_species_list [] gene_indexes gene_species = Inr gene_species"
| "add_species_list (species # rest) gene_indexes gene_species =
     (case addSpeciesToGeneArray species gene_indexes gene_species of
        Inl e \<Rightarrow> Inl e
      | Inr gene_species' \<Rightarrow> add_species_list rest gene_indexes gene_species')"

definition processFastaFile :: "SpeciesInfo list \<Rightarrow> GeneInfo list \<Rightarrow> py_error + gene_dict" where
  "processFastaFile species_list gene_indexes =
     add_species_list species_list gene_indexes (init_gene_species gene_indexes Map.empty)"

section \<open>The index parser\<close>

text \<open>
  \<^verbatim>\<open>line.split()\<close>: the maximal runs of characters that are not whitespace, in order.
  Whitespace for a Python 2 byte string is space, tab, line feed, vertical tab, form
  feed and carriage return.  \<open>split_from cur s\<close> scans \<open>s\<close> with the token read so
  far, reversed, in \<open>cur\<close>.
\<close>

definition is_space :: "char \<Rightarrow> bool" where
  "is_space c = (c = CHR '' '' \<or> c = CHR 0x09 \<or> c = CHR 0x0A \<or> c = CHR 0x0B
                  \<or> c = CHR 0x0C \<or> c = CHR 0x0D)"

fun split_from :: "string \<Rightarrow> string \<Rightarrow> string list" where
  "split_from cur [] = (if cur = [] then [] else [rev cur])"
| "split_from cur (c # cs) =
     (if is_space c then (if cur = [] then split_from [] cs else rev cur # split_from [] cs)
      else split_from (c # cur) cs)"

definition str_split :: "string \<Rightarrow> string list" where
  "str_split s = split_from [] s"

text \<open>
  \<^verbatim>\<open>int(s)\<close> for a byte string without whitespace: an optional sign, then one
  decimal digit or more and nothing else; anything different raises \<open>ValueError\<close>.
  Python integers are unbounded.
\<close>

definition is_digit :: "char \<Rightarrow> bool" where
  "is_digit c = (c \<in> set ''0123456789'')"

definition digit_value :: "char \<Rightarrow> int" where
  "digit_value c = int (of_char c) - 48"

fun digits_value :: "string \<Rightarrow> int \<Rightarrow> int" where
  "digits_value [] acc = acc"
| "digits_value (c # cs) acc = digits_value cs (acc * 10 + digit_value c)"

definition py_int :: "string \<Rightarrow> py_error + int" where
  "py_int s =
     (let (sign, body) =
            (case s of
               [] \<Rightarrow> (1, [])
             | c # cs \<Rightarrow> if c = CHR ''-'' then (- 1, cs)
                        else if c = CHR ''+'' then (1, cs) else (1, s))
      in if body \<noteq> [] \<and> list_all is_digit body then Inr (sign * digits_value body 0)
         else Inl ValueError)"

text \<open>
  The body of the loop of \<open>readGeneIndexes\<close> for one line of the index file, up to the
  \<open>GeneInfo\<close> it appends.  \<^verbatim>\<open>fields[i]\<close> raises \<open>IndexError\<close> when the line has no
  field \<open>i\<close>; the statements run in the order of the source.
\<close>

definition index_line :: "string \<Rightarrow> py_error + GeneInfo" where
  "index_line line0 =
     (let line = str_rstrip (CHR 0x0A) line0;
          fields = str_split line
      in if length fields \<le> 1 then Inl IndexError
         else let gname' = fields ! 1
         in if length fields \<le> 3 then Inl IndexError
            else case py_int (fields ! 3) of
                   Inl e \<Rightarrow> Inl e
                 | Inr gstart' \<Rightarrow>
                     if length fields \<le> 5 then Inl IndexError
                     else case py_int (fields ! 5) of
                            Inl e \<Rightarrow> Inl e
                          | Inr gend' \<Rightarrow> Inr \<lparr>gname = gname', gstart = gstart', gend = gend'\<rparr>)"

text \<open>
  \<open>readGeneIndexes\<close> on the lines of the index file, as iterating over the file yields
  them.  The loop stops at the first exception, which leaves the function; otherwise
  the list built is returned.
\<close>

fun read_index_lines :: "string list \<Rightarrow> GeneInfo list \<Rightarrow> py_error + GeneInfo list" where
  "read_index_lines [] gene_list = Inr gene_list"
| "read_index_lines (line # rest) gene_list =
     (case index_line line of
        Inl e \<Rightarrow> Inl e
      | Inr g \<Rightarrow> read_index_lines rest (gene_list @ [g]))"

definition readGeneIndexes :: "string list \<Rightarrow> py_error + GeneInfo list" where
  "readGeneIndexes idx_file = read_index_lines idx_file []"

section \<open>Auxiliary notions for stating the properties\<close>

text \<open>
  The sequence \<open>extractGene\<close> builds from the sliced window when both repetitions
  succeed, as a function of the gene length and of the window; and the record it then
  returns.
\<close>

definition cleaned :: "int \<Rightarrow> string \<Rightarrow> string" where
  "cleaned genelen seq0 =
     (let seq1 = str_replace (CHR ''?'') (CHR ''X'') seq0;
          seq2 = str_lstrip (CHR ''-'') seq1;
          seq3 = replicate (nat (genelen - int (length seq2))) (CHR ''X'') @ seq2;
          seq4 = str_rstrip (CHR ''-'') seq3
      in seq4 @ replicate (nat (genelen - int (length seq4))) (CHR ''X''))"

definition extracted :: "SpeciesInfo \<Rightarrow> GeneInfo \<Rightarrow> SpeciesInfo" where
  "extracted species gidx =
     \<lparr>name = name species,
      sequence = cleaned (gend gidx - gstart gidx + 1)
                   (str_slice (sequence species) (gstart gidx - 1) (gend gidx))\<rparr>"

text \<open>The results of a call that may raise: one if it returns, none if it raises.\<close>

definition returned :: "py_error + 'a \<Rightarrow> 'a list" where
  "returned r = (case r of Inl _ \<Rightarrow> [] | Inr x \<Rightarrow> [x])"

text \<open>
  The characters of \<open>s\<close> at the 1-based inclusive positions \<open>a..b\<close>, as far as \<open>s\<close> has
  them.
\<close>

definition window :: "string \<Rightarrow> int \<Rightarrow> int \<Rightarrow> string" where
  "window s a b = take (nat (b - a + 1)) (drop (nat (a - 1)) s)"

text \<open>
  The lengths of the leading and of the trailing run of \<open>-\<close> in a window.
\<close>

definition lead_gaps :: "string \<Rightarrow> nat" where
  "lead_gaps w = length (takeWhile (\<lambda>c. c = CHR ''-'') w)"

definition trail_gaps :: "string \<Rightarrow> nat" where
  "trail_gaps w = length (takeWhile (\<lambda>c. c = CHR ''-'') (rev w))"

text \<open>
  What one species contributes to the group of the name \<open>n\<close>, and the group of \<open>n\<close> over
  a list of species: the valid genes that \<open>extractGene\<close> returns for the ranges called
  \<open>n\<close>, species by species.
\<close>

definition valid_genes_of :: "SpeciesInfo \<Rightarrow> GeneInfo list \<Rightarrow> string \<Rightarrow> SpeciesInfo list" where
  "valid_genes_of species gene_indexes n =
     filter isValidGene
       (concat (map (\<lambda>g. returned (extractGene species g))
                  (filter (\<lambda>g. gname g = n) gene_indexes)))"

definition group_of :: "SpeciesInfo list \<Rightarrow> GeneInfo list \<Rightarrow> string \<Rightarrow> SpeciesInfo list" where
  "group_of species_list gene_indexes n =
     concat (map (\<lambda>species. valid_genes_of species gene_indexes n) species_list)"

text \<open>
  A token that \<open>int\<close> accepts, and a line on which the loop body raises: fewer than six
  fields, or a third or fifth field (counted from zero) that is not numeric.
\<close>

definition numeric_token :: "string \<Rightarrow> bool" where
  "numeric_token tok = (case py_int tok of Inl _ \<Rightarrow> False | Inr _ \<Rightarrow> True)"

definition malformed_line :: "string \<Rightarrow> bool" where
  "malformed_line line0 =
     (let fields = str_split (str_rstrip (CHR 0x0A) line0)
      in length fields < 6 \<or> \<not> numeric_token (fields ! 3) \<or> \<not> numeric_token (fields ! 5))"

section \<open>Basic facts\<close>

text \<open>
  The lemmas up to the section on when \<open>extractGene\<close> returns are about \<open>cleaned\<close> and
  \<open>extracted\<close>, that is, about the record \<open>extractGene\<close> returns when neither repetition
  raises.  The properties of the program are then stated on \<open>extractGene\<close> itself.
\<close>

lemma extracted_cleaned:
  "sequence (extracted species gidx) =
     cleaned (gend gidx - gstart gidx + 1)
       (str_slice (sequence species) (gstart gidx - 1) (gend gidx))"
  by (simp add: extracted_def)

lemma str_slice_window:
  assumes "1 \<le> a" "a \<le> b"
  shows "str_slice s (a - 1) b = window s a b"
proof -
  define lo where "lo = nat (a - 1)"
  define k where "k = nat (b - a + 1)"
  from assms have nb: "nat b = lo + k" and na: "\<not> a - 1 < 0" and nb0: "\<not> b < 0"
    by (simp_all add: lo_def k_def)
  have "take (min (lo + k) (length s) - min lo (length s)) (drop (min lo (length s)) s)
      = take k (drop lo s)"
  proof (cases "lo \<le> length s")
    case True
    then have "min (lo + k) (length s) - min lo (length s) = min k (length s - lo)"
      by arith
    with True show ?thesis by (simp add: min_def)
  next
    case False
    then show ?thesis by (simp add: min_def)
  qed
  with na nb0 nb show ?thesis
    by (simp add: str_slice_def slice_bound_def window_def Let_def lo_def[symmetric] k_def[symmetric])
qed

lemma length_window_le: "a \<le> b \<Longrightarrow> int (length (window s a b)) \<le> b - a + 1"
  by (simp add: window_def)

lemma length_rstrip_le: "length (str_rstrip c s) \<le> length s"
  by (simp add: str_rstrip_def length_dropWhile_le[of _ "rev s", simplified])

lemma length_lstrip_le: "length (str_lstrip c s) \<le> length s"
  by (simp add: str_lstrip_def length_dropWhile_le)

lemma length_cleaned:
  assumes "int (length w) \<le> L"
  shows "length (cleaned L w) = nat L"
proof -
  define s2 where "s2 = str_lstrip (CHR ''-'') (str_replace (CHR ''?'') (CHR ''X'') w)"
  define s3 where "s3 = replicate (nat (L - int (length s2))) (CHR ''X'') @ s2"
  define s4 where "s4 = str_rstrip (CHR ''-'') s3"
  have c: "cleaned L w = s4 @ replicate (nat (L - int (length s4))) (CHR ''X'')"
    by (simp add: cleaned_def Let_def s2_def s3_def s4_def)
  have "length s2 \<le> length (str_replace (CHR ''?'') (CHR ''X'') w)"
    unfolding s2_def by (rule length_lstrip_le)
  then have "length s2 \<le> length w"
    by (simp add: str_replace_def)
  with assms have l3: "int (length s3) = L"
    by (simp add: s3_def)
  have "length s4 \<le> length s3"
    unfolding s4_def by (rule length_rstrip_le)
  with l3 have "int (length s4) \<le> L" by simp
  then have "length s4 + nat (L - int (length s4)) = nat L" by linarith
  with c show ?thesis by simp
qed

lemma str_count_eq_length: "(str_count s c = length s) = (\<forall>d\<in>set s. d = c)"
proof (induction s)
  case Nil
  show ?case by (simp add: str_count_def)
next
  case (Cons a s)
  have "length (filter (\<lambda>d. d = c) s) \<le> length s" by (rule length_filter_le)
  then have "length (filter (\<lambda>d. d = c) s) \<noteq> Suc (length s)" by linarith
  with Cons show ?case by (simp add: str_count_def)
qed

lemma isValidGene_conv:
  assumes "sequence gene \<noteq> []"
  shows "(\<not> isValidGene gene) = (\<forall>c\<in>set (sequence gene). c = CHR ''X'')"
proof -
  from assms obtain d ds where sq: "sequence gene = d # ds"
    by (cases "sequence gene") auto
  then have sw: "str_startswith (sequence gene) (CHR ''X'') = (d = CHR ''X'')"
    by (simp add: str_startswith_def)
  show ?thesis
  proof (cases "d = CHR ''X''")
    case True
    with sw show ?thesis
      unfolding isValidGene_def
      using str_count_eq_length [of "sequence gene" "CHR ''X''"] by simp
  next
    case False
    from sq have "d \<in> set (sequence gene)" by simp
    with False have "\<not> (\<forall>c\<in>set (sequence gene). c = CHR ''X'')" by blast
    with sw False show ?thesis
      unfolding isValidGene_def by simp
  qed
qed

section \<open>The result of the pipeline: its length\<close>

lemma extracted_length:
  assumes "1 \<le> gstart gidx" and "gstart gidx \<le> gend gidx"
  shows "int (length (sequence (extracted species gidx))) = gend gidx - gstart gidx + 1"
proof -
  have "int (length (str_slice (sequence species) (gstart gidx - 1) (gend gidx)))
          \<le> gend gidx - gstart gidx + 1"
    using assms by (simp add: str_slice_window length_window_le)
  then have "length (sequence (extracted species gidx)) = nat (gend gidx - gstart gidx + 1)"
    unfolding extracted_cleaned by (rule length_cleaned)
  with assms show ?thesis by simp
qed

section \<open>The validity verdict\<close>

text \<open>
  Claim C2.  For a gene with a non-empty sequence, \<open>isValidGene\<close> returns \<open>False\<close> if and
  only if every character of the sequence is \<open>X\<close>.  So a sequence that starts with \<open>X\<close>
  and has some other character is valid, and nothing but the sequence decides.
\<close>

theorem isValidGene_iff_not_all_X:
  assumes "sequence gene \<noteq> []"
  shows "(isValidGene gene = False) = (\<forall>c\<in>set (sequence gene). c = CHR ''X'')"
  using isValidGene_conv [OF assms] by simp

theorem isValidGene_iff_not_all_X_witness:
  "sequence \<lparr>name = ''A'', sequence = ''XXGX''\<rparr> \<noteq> []
   \<and> sequence \<lparr>name = ''B'', sequence = ''XXXX''\<rparr> \<noteq> []
   \<and> isValidGene \<lparr>name = ''A'', sequence = ''XXGX''\<rparr>
   \<and> \<not> isValidGene \<lparr>name = ''B'', sequence = ''XXXX''\<rparr>"
proof -
  have h1: "sequence \<lparr>name = ''A'', sequence = ''XXGX''\<rparr> \<noteq> []"
   and h2: "sequence \<lparr>name = ''B'', sequence = ''XXXX''\<rparr> \<noteq> []" by simp_all
  from isValidGene_iff_not_all_X [OF h1]
  have a: "isValidGene \<lparr>name = ''A'', sequence = ''XXGX''\<rparr>" by simp
  from isValidGene_iff_not_all_X [OF h2]
  have b: "\<not> isValidGene \<lparr>name = ''B'', sequence = ''XXXX''\<rparr>" by simp
  from h1 h2 a b show ?thesis by blast
qed

text \<open>
  Claim C10.  A gene whose sequence is the empty string is judged valid: the test for
  an all-\<open>X\<close> sequence is reached only when the sequence starts with \<open>X\<close>, so every
  rejected gene starts with \<open>X\<close>.
\<close>

theorem isValidGene_empty:
  "isValidGene \<lparr>name = n, sequence = []\<rparr>
   \<and> (isValidGene gene \<or> str_startswith (sequence gene) (CHR ''X''))"
  by (simp add: isValidGene_def str_startswith_def)

section \<open>Facts about stripping\<close>

lemma set_lstrip: "set (str_lstrip c s) \<subseteq> set s"
  by (auto simp: str_lstrip_def dest: set_dropWhileD)

lemma set_rstrip: "set (str_rstrip c s) \<subseteq> set s"
  by (auto simp: str_rstrip_def dest: set_dropWhileD)

lemma hd_lstrip: "str_lstrip c s \<noteq> [] \<Longrightarrow> hd (str_lstrip c s) \<noteq> c"
  unfolding str_lstrip_def using hd_dropWhile [of "\<lambda>d. d = c" s] by simp

lemma lstrip_id: "s = [] \<or> hd s \<noteq> c \<Longrightarrow> str_lstrip c s = s"
  by (cases s) (auto simp: str_lstrip_def)

lemma rstrip_id: "s = [] \<or> last s \<noteq> c \<Longrightarrow> str_rstrip c s = s"
proof (cases "s = []")
  case True
  then show ?thesis by (simp add: str_rstrip_def)
next
  case False
  assume "s = [] \<or> last s \<noteq> c"
  with False have "hd (rev s) \<noteq> c" by (simp add: hd_rev)
  moreover from False have "rev s \<noteq> []" by simp
  ultimately have "dropWhile (\<lambda>d. d = c) (rev s) = rev s"
    by (cases "rev s") auto
  then show ?thesis by (simp add: str_rstrip_def)
qed

lemma rstrip_append:
  assumes "xs \<noteq> []" and "last xs \<noteq> c"
  shows "str_rstrip c (xs @ ys) = xs @ str_rstrip c ys"
proof -
  let ?P = "\<lambda>d. d = c"
  have keep: "dropWhile ?P (rev xs) = rev xs"
    using rstrip_id [of xs c] assms by (simp add: str_rstrip_def rev_swap)
  have split: "dropWhile ?P (rev ys @ rev xs) =
      (if \<forall>x\<in>set (rev ys). ?P x then dropWhile ?P (rev xs) else dropWhile ?P (rev ys) @ rev xs)"
    by (rule dropWhile_append)
  show ?thesis
  proof (cases "\<forall>x\<in>set (rev ys). ?P x")
    case True
    then have "dropWhile ?P (rev ys) = []"
      by (simp only: dropWhile_eq_Nil_conv)
    with True split keep show ?thesis
      by (simp add: str_rstrip_def)
  next
    case False
    then obtain y where "y \<in> set (rev ys)" and "\<not> ?P y" by blast
    then have "dropWhile ?P (rev ys @ rev xs) = dropWhile ?P (rev ys) @ rev xs"
      by (rule dropWhile_append1)
    then show ?thesis
      by (simp add: str_rstrip_def)
  qed
qed

lemma last_rstrip: "str_rstrip c s \<noteq> [] \<Longrightarrow> last (str_rstrip c s) \<noteq> c"
proof -
  assume ne: "str_rstrip c s \<noteq> []"
  then have "dropWhile (\<lambda>d. d = c) (rev s) \<noteq> []" by (simp add: str_rstrip_def)
  then have "hd (dropWhile (\<lambda>d. d = c) (rev s)) \<noteq> c"
    using hd_dropWhile [of "\<lambda>d. d = c" "rev s"] by simp
  with ne show ?thesis by (simp add: str_rstrip_def last_rev)
qed

lemma rstrip_keeps_head:
  assumes "s \<noteq> []" and "hd s \<noteq> c"
  shows "str_rstrip c s \<noteq> [] \<and> hd (str_rstrip c s) = hd s"
proof -
  from assms obtain t where s: "s = [hd s] @ t" by (cases s) auto
  have "str_rstrip c ([hd s] @ t) = [hd s] @ str_rstrip c t"
    by (rule rstrip_append) (use assms in simp_all)
  with s have "str_rstrip c s = hd s # str_rstrip c t" by simp
  then show ?thesis by simp
qed

lemma rstrip_replicate: "d \<noteq> c \<Longrightarrow> str_rstrip c (replicate n d) = replicate n d"
  by (rule rstrip_id) (cases n, auto)

lemma lstrip_replicate: "d \<noteq> c \<Longrightarrow> str_lstrip c (replicate n d) = replicate n d"
  by (rule lstrip_id) (cases n, auto)

section \<open>The shape of a cleaned window\<close>

lemma cleaned_edges:
  assumes "int (length w) \<le> L" and "1 \<le> L"
  shows "cleaned L w \<noteq> [] \<and> hd (cleaned L w) \<noteq> CHR ''-'' \<and> last (cleaned L w) \<noteq> CHR ''-''
         \<and> CHR ''?'' \<notin> set (cleaned L w)"
proof -
  define s1 where "s1 = str_replace (CHR ''?'') (CHR ''X'') w"
  define s2 where "s2 = str_lstrip (CHR ''-'') s1"
  define k where "k = nat (L - int (length s2))"
  define s3 where "s3 = replicate k (CHR ''X'') @ s2"
  define s4 where "s4 = str_rstrip (CHR ''-'') s3"
  define m where "m = nat (L - int (length s4))"
  have c: "cleaned L w = s4 @ replicate m (CHR ''X'')"
    by (simp add: cleaned_def Let_def s1_def s2_def s3_def s4_def k_def m_def)
  have q1: "CHR ''?'' \<notin> set s1"
    by (auto simp: s1_def str_replace_def)
  have "set s2 \<subseteq> set s1" unfolding s2_def by (rule set_lstrip)
  with q1 have q2: "CHR ''?'' \<notin> set s2" by blast
  have "length s2 \<le> length s1" unfolding s2_def by (rule length_lstrip_le)
  then have "length s2 \<le> length w" by (simp add: s1_def str_replace_def)
  with assms have l3: "length s3 = nat L"
    by (simp add: s3_def k_def)
  with assms have pos: "0 < length s3" by simp
  from pos have ne3: "s3 \<noteq> []" by auto
  have h3: "hd s3 \<noteq> CHR ''-''"
  proof (cases "k = 0")
    case True
    with ne3 have "s3 = s2" and "s2 \<noteq> []" by (simp_all add: s3_def)
    then show ?thesis using hd_lstrip [of "CHR ''-''" s1] by (simp add: s2_def)
  next
    case False
    then obtain j where "k = Suc j" by (cases k) auto
    then show ?thesis by (simp add: s3_def)
  qed
  from rstrip_keeps_head [OF ne3 h3]
  have ne4: "s4 \<noteq> []" and h4: "hd s4 = hd s3" by (simp_all add: s4_def)
  from ne4 have l4: "last s4 \<noteq> CHR ''-''"
    unfolding s4_def by (rule last_rstrip)
  have "set s4 \<subseteq> set s3" unfolding s4_def by (rule set_rstrip)
  with q2 have q4: "CHR ''?'' \<notin> set s4" by (auto simp: s3_def)
  from c ne4 have r1: "cleaned L w \<noteq> []" by simp
  from c ne4 h4 h3 have r2: "hd (cleaned L w) \<noteq> CHR ''-''" by simp
  have r3: "last (cleaned L w) \<noteq> CHR ''-''"
  proof (cases "m = 0")
    case True
    with c l4 show ?thesis by simp
  next
    case False
    with c show ?thesis by simp
  qed
  from c q4 have r4: "CHR ''?'' \<notin> set (cleaned L w)" by auto
  from r1 r2 r3 r4 show ?thesis by blast
qed

lemma cleaned_fixpoint:
  assumes "length r = nat L" and "1 \<le> L"
    and "CHR ''?'' \<notin> set r" and "hd r \<noteq> CHR ''-''" and "last r \<noteq> CHR ''-''"
  shows "cleaned L r = r"
proof -
  have s1: "str_replace (CHR ''?'') (CHR ''X'') r = r"
    unfolding str_replace_def using assms(3) by (induction r) auto
  have s2: "str_lstrip (CHR ''-'') r = r"
    by (rule lstrip_id) (use assms in simp)
  have s4: "str_rstrip (CHR ''-'') r = r"
    by (rule rstrip_id) (use assms in simp)
  from assms have z: "nat (L - int (length r)) = 0" by simp
  show ?thesis
    by (simp add: cleaned_def Let_def s1 s2 s4 z)
qed

lemma length_str_slice_le:
  "1 \<le> a \<Longrightarrow> a \<le> b \<Longrightarrow> int (length (str_slice s (a - 1) b)) \<le> b - a + 1"
  by (simp add: str_slice_window length_window_le)

lemma cleaned_form:
  assumes "int (length w) \<le> L"
  shows "cleaned L w =
     (let core = str_lstrip (CHR ''-'') (str_replace (CHR ''?'') (CHR ''X'') w);
          kept = str_rstrip (CHR ''-'') core
      in replicate (nat L - length core) (CHR ''X'') @ kept
           @ replicate (length core - length kept) (CHR ''X''))"
proof -
  define core where "core = str_lstrip (CHR ''-'') (str_replace (CHR ''?'') (CHR ''X'') w)"
  define kept where "kept = str_rstrip (CHR ''-'') core"
  define k where "k = nat L - length core"
  define s3 where "s3 = replicate k (CHR ''X'') @ core"
  define s4 where "s4 = str_rstrip (CHR ''-'') s3"
  have "length core \<le> length (str_replace (CHR ''?'') (CHR ''X'') w)"
    unfolding core_def by (rule length_lstrip_le)
  then have lc: "length core \<le> length w" by (simp add: str_replace_def)
  with assms have lcL: "length core \<le> nat L" by simp
  have kk: "nat (L - int (length core)) = k" by (simp add: k_def)
  have c: "cleaned L w = s4 @ replicate (nat (L - int (length s4))) (CHR ''X'')"
    by (simp add: cleaned_def Let_def core_def[symmetric] kk s3_def[symmetric]
        s4_def[symmetric])
  have lk: "length kept \<le> length core" unfolding kept_def by (rule length_rstrip_le)
  have s4: "s4 = replicate k (CHR ''X'') @ kept"
  proof (cases "k = 0")
    case True
    then show ?thesis by (simp add: s4_def s3_def kept_def)
  next
    case False
    then have "replicate k (CHR ''X'') \<noteq> []" and "last (replicate k (CHR ''X'')) \<noteq> CHR ''-''"
      by simp_all
    then show ?thesis unfolding s4_def s3_def kept_def by (rule rstrip_append)
  qed
  from lcL lk assms have "nat (L - int (length s4)) = length core - length kept"
    by (simp add: s4 k_def)
  with c s4 show ?thesis
    by (simp add: Let_def core_def[symmetric] kept_def[symmetric] k_def)
qed

lemma cleaned_all_gap:
  assumes "\<forall>c\<in>set w. c = CHR ''-''"
  shows "cleaned L w = replicate (nat L) (CHR ''X'')"
proof -
  from assms have s1: "str_replace (CHR ''?'') (CHR ''X'') w = w"
    unfolding str_replace_def by (induction w) auto
  from assms have s2: "str_lstrip (CHR ''-'') w = []"
    by (simp add: str_lstrip_def)
  have s4: "str_rstrip (CHR ''-'') (replicate (nat L) (CHR ''X'')) = replicate (nat L) (CHR ''X'')"
    by (rule rstrip_replicate) simp
  show ?thesis
    by (simp add: cleaned_def Let_def s1 s2 s4)
qed

lemma cleaned_all_unknown:
  assumes "\<forall>c\<in>set w. c = CHR ''?''" and "length w = nat L"
  shows "cleaned L w = replicate (nat L) (CHR ''X'')"
proof -
  from assms(1) have "map (\<lambda>c. if c = CHR ''?'' then CHR ''X'' else c) w
      = replicate (length w) (CHR ''X'')"
    by (induction w) simp_all
  with assms(2) have s1: "str_replace (CHR ''?'') (CHR ''X'') w = replicate (nat L) (CHR ''X'')"
    by (simp add: str_replace_def)
  have s2: "str_lstrip (CHR ''-'') (replicate (nat L) (CHR ''X'')) = replicate (nat L) (CHR ''X'')"
    by (rule lstrip_replicate) simp
  have s4: "str_rstrip (CHR ''-'') (replicate (nat L) (CHR ''X'')) = replicate (nat L) (CHR ''X'')"
    by (rule rstrip_replicate) simp
  show ?thesis
    by (simp add: cleaned_def Let_def s1 s2 s4)
qed

section \<open>The result of the pipeline: what survives\<close>

lemma extracted_no_unknown_no_edge_gap:
  assumes "1 \<le> gstart gidx" and "gstart gidx \<le> gend gidx"
  shows "CHR ''?'' \<notin> set (sequence (extracted species gidx))
    \<and> sequence (extracted species gidx) \<noteq> []
    \<and> hd (sequence (extracted species gidx)) \<noteq> CHR ''-''
    \<and> last (sequence (extracted species gidx)) \<noteq> CHR ''-''
    \<and> (\<forall>i<length (sequence (extracted species gidx)).
          sequence (extracted species gidx) ! i = CHR ''-''
          \<longrightarrow> 0 < i \<and> Suc i < length (sequence (extracted species gidx)))"
proof -
  define r where "r = sequence (extracted species gidx)"
  have "int (length (str_slice (sequence species) (gstart gidx - 1) (gend gidx)))
      \<le> gend gidx - gstart gidx + 1"
    using assms by (rule length_str_slice_le)
  moreover from assms have "1 \<le> gend gidx - gstart gidx + 1" by simp
  ultimately have e: "r \<noteq> [] \<and> hd r \<noteq> CHR ''-'' \<and> last r \<noteq> CHR ''-'' \<and> CHR ''?'' \<notin> set r"
    unfolding r_def extracted_cleaned by (rule cleaned_edges)
  have "0 < i \<and> Suc i < length r" if "i < length r" and "r ! i = CHR ''-''" for i
  proof -
    from e have "hd r = r ! 0" and "last r = r ! (length r - 1)"
      by (simp_all add: hd_conv_nth last_conv_nth)
    with e have a: "r ! 0 \<noteq> CHR ''-''" and b: "r ! (length r - 1) \<noteq> CHR ''-''"
      by simp_all
    from a that(2) have "i \<noteq> 0" by (cases "i = 0") simp_all
    moreover from b that(2) have "i \<noteq> length r - 1" by (cases "i = length r - 1") simp_all
    ultimately show ?thesis using that(1) by arith
  qed
  with e show ?thesis unfolding r_def by blast
qed

section \<open>The result of the pipeline: windows without information\<close>

lemma window_full_length:
  assumes "1 \<le> a" and "a \<le> b" and "b \<le> int (length s)"
  shows "length (window s a b) = nat (b - a + 1)"
  using assms by (simp add: window_def)


lemma extracted_all_gap_or_unknown:
  assumes "1 \<le> gstart gidx" and "gstart gidx \<le> gend gidx"
    and "gend gidx \<le> int (length (sequence species))"
    and "(\<forall>c\<in>set (window (sequence species) (gstart gidx) (gend gidx)). c = CHR ''-'')
       \<or> (\<forall>c\<in>set (window (sequence species) (gstart gidx) (gend gidx)). c = CHR ''?'')"
  shows "sequence (extracted species gidx)
           = replicate (nat (gend gidx - gstart gidx + 1)) (CHR ''X'')
       \<and> \<not> isValidGene (extracted species gidx)"
proof -
  define L where "L = gend gidx - gstart gidx + 1"
  define w where "w = window (sequence species) (gstart gidx) (gend gidx)"
  from assms(1,2) have sl: "str_slice (sequence species) (gstart gidx - 1) (gend gidx) = w"
    unfolding w_def by (rule str_slice_window)
  from assms(1-3) have lw: "length w = nat L"
    unfolding w_def L_def by (rule window_full_length)
  from assms(4) have "cleaned L w = replicate (nat L) (CHR ''X'')"
    unfolding w_def[symmetric]
  proof
    assume "\<forall>c\<in>set w. c = CHR ''-''"
    then show ?thesis by (rule cleaned_all_gap)
  next
    assume "\<forall>c\<in>set w. c = CHR ''?''"
    then show ?thesis using lw by (rule cleaned_all_unknown)
  qed
  with sl have r: "sequence (extracted species gidx) = replicate (nat L) (CHR ''X'')"
    by (simp add: extracted_cleaned L_def)
  from assms(2) have "0 < nat L" by (simp add: L_def)
  with r have ne: "sequence (extracted species gidx) \<noteq> []"
    and ax: "\<forall>c\<in>set (sequence (extracted species gidx)). c = CHR ''X''" by auto
  from isValidGene_conv [OF ne] ax have "\<not> isValidGene (extracted species gidx)"
    by blast
  with r show ?thesis unfolding L_def by blast
qed

section \<open>The result of the pipeline: ranges past the end of the sequence\<close>

lemma extracted_clips_slice:
  assumes "1 \<le> gstart gidx" and "gstart gidx \<le> gend gidx"
  shows "str_slice (sequence species) (gstart gidx - 1) (gend gidx)
           = take (nat (gend gidx - gstart gidx + 1)) (drop (nat (gstart gidx - 1)) (sequence species))
    \<and> (int (length (sequence species)) < gend gidx \<longrightarrow>
          str_slice (sequence species) (gstart gidx - 1) (gend gidx)
            = drop (nat (gstart gidx - 1)) (sequence species)
          \<and> int (length (str_slice (sequence species) (gstart gidx - 1) (gend gidx)))
              < gend gidx - gstart gidx + 1)
    \<and> (\<exists>pre core post.
          extracted species gidx
            = \<lparr>name = name species,
               sequence = replicate pre (CHR ''X'') @ core @ replicate post (CHR ''X'')\<rparr>
          \<and> core = str_rstrip (CHR ''-'') (str_lstrip (CHR ''-'') (str_replace (CHR ''?'') (CHR ''X'')
                      (str_slice (sequence species) (gstart gidx - 1) (gend gidx))))
          \<and> int (pre + length core + post) = gend gidx - gstart gidx + 1)"
proof -
  define L where "L = gend gidx - gstart gidx + 1"
  define w where "w = str_slice (sequence species) (gstart gidx - 1) (gend gidx)"
  define lo where "lo = nat (gstart gidx - 1)"
  from assms have clip: "w = take (nat L) (drop lo (sequence species))"
    by (simp add: w_def L_def lo_def str_slice_window window_def)
  have short: "w = drop lo (sequence species) \<and> int (length w) < L"
    if "int (length (sequence species)) < gend gidx"
  proof -
    from that assms have "length (drop lo (sequence species)) < nat L"
      by (simp add: lo_def L_def)
    with clip show ?thesis by simp
  qed
  from assms have wl: "int (length w) \<le> L"
    unfolding w_def L_def by (rule length_str_slice_le)
  define c2 where "c2 = str_lstrip (CHR ''-'') (str_replace (CHR ''?'') (CHR ''X'') w)"
  define core where "core = str_rstrip (CHR ''-'') c2"
  define pre where "pre = nat L - length c2"
  define post where "post = length c2 - length core"
  from cleaned_form [OF wl]
  have cf: "cleaned L w = replicate pre (CHR ''X'') @ core @ replicate post (CHR ''X'')"
    by (simp add: Let_def c2_def core_def pre_def post_def)
  have "length (cleaned L w) = nat L" using wl by (rule length_cleaned)
  with cf assms have tot: "int (pre + length core + post) = L"
    by (simp add: L_def)
  have "sequence (extracted species gidx) = cleaned L w"
    by (simp add: extracted_cleaned L_def w_def)
  with cf have "extracted species gidx
      = \<lparr>name = name species, sequence = replicate pre (CHR ''X'') @ core @ replicate post (CHR ''X'')\<rparr>"
    by (simp add: extracted_def Let_def)
  with tot have ex: "\<exists>pre core post.
          extracted species gidx
            = \<lparr>name = name species,
               sequence = replicate pre (CHR ''X'') @ core @ replicate post (CHR ''X'')\<rparr>
          \<and> core = str_rstrip (CHR ''-'') (str_lstrip (CHR ''-'') (str_replace (CHR ''?'') (CHR ''X'') w))
          \<and> int (pre + length core + post) = L"
    unfolding core_def c2_def by blast
  from clip short ex show ?thesis
    unfolding w_def L_def lo_def by blast
qed

section \<open>The result of the pipeline: edge gaps and inner gaps\<close>

lemma takeWhile_all_same: "takeWhile (\<lambda>d. d = c) s = replicate (length (takeWhile (\<lambda>d. d = c) s)) c"
  by (induction s) auto

lemma gap_decomposition:
  assumes "\<exists>c\<in>set w. c \<noteq> CHR ''-''"
  shows "\<exists>mid. w = replicate (lead_gaps w) (CHR ''-'') @ mid @ replicate (trail_gaps w) (CHR ''-'')
           \<and> mid \<noteq> [] \<and> hd mid \<noteq> CHR ''-'' \<and> last mid \<noteq> CHR ''-''"
proof -
  let ?P = "\<lambda>c. c = CHR ''-''"
  define rest where "rest = dropWhile ?P w"
  define mid where "mid = rev (dropWhile ?P (rev rest))"
  have w1: "w = replicate (lead_gaps w) (CHR ''-'') @ rest"
    using takeWhile_dropWhile_id [of ?P w] takeWhile_all_same [of "CHR ''-''" w]
    by (simp add: rest_def lead_gaps_def)
  from assms have rne: "rest \<noteq> []" by (auto simp: rest_def)
  then have hr: "hd rest \<noteq> CHR ''-''"
    unfolding rest_def using hd_dropWhile [of ?P w] by simp
  from rne hr have inr: "hd rest \<in> set (rev rest)" by simp
  have tw: "takeWhile ?P (rev w) = takeWhile ?P (rev rest)"
  proof -
    have "rev w = rev rest @ replicate (lead_gaps w) (CHR ''-'')"
      by (subst w1) simp
    moreover from inr hr
    have "takeWhile ?P (rev rest @ replicate (lead_gaps w) (CHR ''-'')) = takeWhile ?P (rev rest)"
      by (rule takeWhile_append1)
    ultimately show ?thesis by simp
  qed
  have "rev rest = takeWhile ?P (rev rest) @ dropWhile ?P (rev rest)" by simp
  then have "rev rest = replicate (trail_gaps w) (CHR ''-'') @ rev mid"
    using takeWhile_all_same [of "CHR ''-''" "rev rest"]
    by (simp add: trail_gaps_def tw mid_def)
  then have "rev (rev rest) = rev (replicate (trail_gaps w) (CHR ''-'') @ rev mid)" by simp
  then have r2: "rest = mid @ replicate (trail_gaps w) (CHR ''-'')" by simp
  from inr hr have "dropWhile ?P (rev rest) \<noteq> []" by (auto simp: dropWhile_eq_Nil_conv)
  then have mne: "mid \<noteq> []" and "hd (dropWhile ?P (rev rest)) \<noteq> CHR ''-''"
    using hd_dropWhile [of ?P "rev rest"] by (simp_all add: mid_def)
  then have lm: "last mid \<noteq> CHR ''-''" by (simp add: mid_def last_rev)
  from r2 mne hr have hm: "hd mid \<noteq> CHR ''-''" by (cases mid) auto
  from w1 r2 have "w = replicate (lead_gaps w) (CHR ''-'') @ mid @ replicate (trail_gaps w) (CHR ''-'')"
    by simp
  with mne hm lm show ?thesis by blast
qed

lemma cleaned_between_gaps:
  assumes "mid \<noteq> []" and "hd mid \<noteq> CHR ''-''" and "last mid \<noteq> CHR ''-''"
  shows "cleaned (int (a + length mid + b)) (replicate a (CHR ''-'') @ mid @ replicate b (CHR ''-''))
       = replicate a (CHR ''X'') @ str_replace (CHR ''?'') (CHR ''X'') mid @ replicate b (CHR ''X'')"
proof -
  let ?P = "\<lambda>c. c = CHR ''-''"
  define m1 where "m1 = str_replace (CHR ''?'') (CHR ''X'') mid"
  from assms(1) obtain x xs where mx: "mid = x # xs" by (cases mid) auto
  from assms(1) have lm1: "length m1 = length mid" and ne1: "m1 \<noteq> []"
    by (simp_all add: m1_def str_replace_def)
  from assms mx have h1: "hd m1 \<noteq> CHR ''-''"
    by (simp add: m1_def str_replace_def)
  from assms have l1: "last m1 \<noteq> CHR ''-''"
    by (simp add: m1_def str_replace_def last_map)
  have s1: "str_replace (CHR ''?'') (CHR ''X'') (replicate a (CHR ''-'') @ mid @ replicate b (CHR ''-''))
      = replicate a (CHR ''-'') @ m1 @ replicate b (CHR ''-'')"
    by (simp add: m1_def str_replace_def)
  have "dropWhile ?P (replicate a (CHR ''-'') @ (m1 @ replicate b (CHR ''-'')))
      = dropWhile ?P (m1 @ replicate b (CHR ''-''))"
    by (rule dropWhile_append2) simp
  moreover from ne1 h1 have "dropWhile ?P (m1 @ replicate b (CHR ''-'')) = m1 @ replicate b (CHR ''-'')"
    by (cases m1) auto
  ultimately have s2: "str_lstrip (CHR ''-'') (replicate a (CHR ''-'') @ m1 @ replicate b (CHR ''-''))
      = m1 @ replicate b (CHR ''-'')"
    by (simp add: str_lstrip_def)
  have k: "nat (int (a + length mid + b) - int (length (m1 @ replicate b (CHR ''-'')))) = a"
    by (simp add: lm1)
  have "str_rstrip (CHR ''-'') ((replicate a (CHR ''X'') @ m1) @ replicate b (CHR ''-''))
      = (replicate a (CHR ''X'') @ m1) @ str_rstrip (CHR ''-'') (replicate b (CHR ''-''))"
    by (rule rstrip_append) (use ne1 l1 in simp_all)
  moreover have "str_rstrip (CHR ''-'') (replicate b (CHR ''-'')) = []"
    by (simp add: str_rstrip_def)
  ultimately have s4: "str_rstrip (CHR ''-'') (replicate a (CHR ''X'') @ m1 @ replicate b (CHR ''-''))
      = replicate a (CHR ''X'') @ m1"
    by simp
  have m: "nat (int (a + length mid + b) - int (length (replicate a (CHR ''X'') @ m1))) = b"
    by (simp add: lm1)
  show ?thesis
    unfolding cleaned_def Let_def s1 s2 k s4 m m1_def[symmetric] by simp
qed

lemma between_gaps_pointwise:
  fixes mid :: string and a b :: nat
  defines "w \<equiv> replicate a (CHR ''-'') @ mid @ replicate b (CHR ''-'')"
  defines "r \<equiv> replicate a (CHR ''X'') @ str_replace (CHR ''?'') (CHR ''X'') mid @ replicate b (CHR ''X'')"
  assumes "i < length w"
  shows "r ! i = (if i < a \<or> length w - b \<le> i \<or> w ! i = CHR ''?'' then CHR ''X'' else w ! i)"
proof -
  consider (left) "i < a" | (middle) "a \<le> i" "i < a + length mid" | (right) "a + length mid \<le> i"
    by linarith
  then show ?thesis
  proof cases
    case left
    then show ?thesis by (simp add: r_def nth_append)
  next
    case middle
    then have ia: "i - a < length mid" by arith
    with middle have "r ! i = str_replace (CHR ''?'') (CHR ''X'') mid ! (i - a)"
      by (simp add: r_def nth_append str_replace_def)
    moreover from middle ia have "w ! i = mid ! (i - a)"
      by (simp add: w_def nth_append)
    moreover from middle have "\<not> i < a" and "\<not> length w - b \<le> i"
      by (simp_all add: w_def)
    ultimately show ?thesis using ia by (simp add: str_replace_def)
  next
    case right
    then have n1: "\<not> i < a" and n2: "\<not> i - a < length mid" by arith+
    from right assms(3) have n3: "i - a - length mid < b" by (simp add: w_def)
    from n1 n2 n3 have "r ! i = CHR ''X''"
      by (simp add: r_def nth_append str_replace_def)
    moreover from right have "length w - b \<le> i" by (simp add: w_def)
    ultimately show ?thesis by simp
  qed
qed


lemma extracted_edge_gaps_only:
  assumes "1 \<le> gstart gidx" and "gstart gidx \<le> gend gidx"
    and "gend gidx \<le> int (length (sequence species))"
    and "\<exists>c\<in>set (window (sequence species) (gstart gidx) (gend gidx)).
           c \<noteq> CHR ''-'' \<and> c \<noteq> CHR ''?''"
  shows "length (sequence (extracted species gidx))
           = length (window (sequence species) (gstart gidx) (gend gidx))
    \<and> (\<forall>i<length (window (sequence species) (gstart gidx) (gend gidx)).
          sequence (extracted species gidx) ! i =
            (if i < lead_gaps (window (sequence species) (gstart gidx) (gend gidx))
                \<or> length (window (sequence species) (gstart gidx) (gend gidx))
                     - trail_gaps (window (sequence species) (gstart gidx) (gend gidx)) \<le> i
                \<or> window (sequence species) (gstart gidx) (gend gidx) ! i = CHR ''?''
             then CHR ''X''
             else window (sequence species) (gstart gidx) (gend gidx) ! i))
    \<and> ((\<exists>c\<in>set (window (sequence species) (gstart gidx) (gend gidx)).
            c \<noteq> CHR ''-'' \<and> c \<noteq> CHR ''?'' \<and> c \<noteq> CHR ''X'')
         \<longrightarrow> isValidGene (extracted species gidx))"
proof -
  define L where "L = gend gidx - gstart gidx + 1"
  define w where "w = window (sequence species) (gstart gidx) (gend gidx)"
  define r where "r = sequence (extracted species gidx)"
  define a where "a = lead_gaps w"
  define b where "b = trail_gaps w"
  from assms(1,2) have sl: "str_slice (sequence species) (gstart gidx - 1) (gend gidx) = w"
    unfolding w_def by (rule str_slice_window)
  from assms(1-3) have lw: "length w = nat L"
    unfolding w_def L_def by (rule window_full_length)
  from assms(4) have "\<exists>c\<in>set w. c \<noteq> CHR ''-''" unfolding w_def by blast
  then obtain mid where dec: "w = replicate a (CHR ''-'') @ mid @ replicate b (CHR ''-'')"
    and mne: "mid \<noteq> []" and hm: "hd mid \<noteq> CHR ''-''" and lm: "last mid \<noteq> CHR ''-''"
    unfolding a_def b_def using gap_decomposition [of w] by blast
  from dec have "length w = a + length mid + b" by (metis length_append length_replicate add.assoc)
  with lw assms(2) have Lw: "L = int (a + length mid + b)" by (simp add: L_def)
  have "r = cleaned L w" by (simp add: r_def extracted_cleaned sl L_def)
  also have "\<dots> = cleaned (int (a + length mid + b))
                      (replicate a (CHR ''-'') @ mid @ replicate b (CHR ''-''))"
    using Lw dec by simp
  also have "\<dots> = replicate a (CHR ''X'') @ str_replace (CHR ''?'') (CHR ''X'') mid
                      @ replicate b (CHR ''X'')"
    using mne hm lm by (rule cleaned_between_gaps)
  finally have rr: "r = replicate a (CHR ''X'') @ str_replace (CHR ''?'') (CHR ''X'') mid
                      @ replicate b (CHR ''X'')" .
  have len: "length r = length w"
    by (subst rr, subst dec) (simp add: str_replace_def)
  have pt: "r ! i = (if i < a \<or> length w - b \<le> i \<or> w ! i = CHR ''?'' then CHR ''X'' else w ! i)"
    if "i < length w" for i
  proof -
    from that dec have "i < length (replicate a (CHR ''-'') @ mid @ replicate b (CHR ''-''))"
      by simp
    from between_gaps_pointwise [OF this] show ?thesis
      unfolding rr [symmetric] dec [symmetric] .
  qed
  have val: "isValidGene (extracted species gidx)"
    if "\<exists>c\<in>set w. c \<noteq> CHR ''-'' \<and> c \<noteq> CHR ''?'' \<and> c \<noteq> CHR ''X''"
  proof -
    from that obtain c where cw: "c \<in> set w" and c: "c \<noteq> CHR ''-''" "c \<noteq> CHR ''?''" "c \<noteq> CHR ''X''"
      by blast
    from cw c(1) have "c \<in> set mid" by (subst (asm) dec) auto
    with c(2) have "c \<in> set (str_replace (CHR ''?'') (CHR ''X'') mid)"
      by (force simp: str_replace_def)
    then have "c \<in> set r" by (subst rr) simp
    with c(3) have ne: "sequence (extracted species gidx) \<noteq> []"
      and nx: "\<not> (\<forall>c\<in>set (sequence (extracted species gidx)). c = CHR ''X'')"
      unfolding r_def by auto
    from isValidGene_conv [OF ne] nx show ?thesis by blast
  qed
  from len pt val show ?thesis
    unfolding r_def w_def a_def b_def by blast
qed

section \<open>Facts about the index parser\<close>

lemma index_line_error_iff: "(\<exists>e. index_line l = Inl e) = malformed_line l"
proof -
  define fields where "fields = str_split (str_rstrip (CHR 0x0A) l)"
  show ?thesis
  proof (cases "length fields < 6")
    case short: True
    have "\<exists>e. index_line l = Inl e"
    proof (cases "length fields \<le> 3")
      case True
      then show ?thesis
        by (simp add: index_line_def Let_def fields_def[symmetric])
    next
      case False
      then show ?thesis
        using short
        by (cases "py_int (fields ! 3)")
          (simp_all add: index_line_def Let_def fields_def[symmetric])
    qed
    with short show ?thesis
      by (simp add: malformed_line_def Let_def fields_def[symmetric])
  next
    case long: False
    then show ?thesis
      by (cases "py_int (fields ! 3)"; cases "py_int (fields ! 5)")
        (simp_all add: index_line_def malformed_line_def numeric_token_def Let_def
          fields_def[symmetric])
  qed
qed

lemma index_line_ok: "\<not> malformed_line l \<Longrightarrow> \<exists>g. index_line l = Inr g"
  using index_line_error_iff [of l] by (cases "index_line l") auto

lemma read_index_lines_ok:
  assumes "\<forall>l\<in>set ls. \<not> malformed_line l"
  shows "\<exists>gl. read_index_lines ls acc = Inr (acc @ gl) \<and> length gl = length ls"
  using assms
proof (induction ls arbitrary: acc)
  case Nil
  then show ?case by simp
next
  case (Cons l ls)
  then obtain g where g: "index_line l = Inr g" using index_line_ok [of l] by auto
  from Cons.prems have "\<forall>l\<in>set ls. \<not> malformed_line l" by simp
  from Cons.IH [OF this, of "acc @ [g]"] obtain gl
    where "read_index_lines ls (acc @ [g]) = Inr ((acc @ [g]) @ gl)" and "length gl = length ls"
    by blast
  with g have "read_index_lines (l # ls) acc = Inr (acc @ (g # gl)) \<and> length (g # gl) = length (l # ls)"
    by simp
  then show ?case by blast
qed

lemma read_index_lines_first_bad:
  assumes "\<forall>l\<in>set pre. \<not> malformed_line l" and "index_line bad = Inl e"
  shows "read_index_lines (pre @ bad # rest) acc = Inl e"
  using assms(1)
proof (induction pre arbitrary: acc)
  case Nil
  from assms(2) show ?case by simp
next
  case (Cons l pre)
  then obtain g where g: "index_line l = Inr g" using index_line_ok [of l] by auto
  from Cons.prems have "\<forall>l\<in>set pre. \<not> malformed_line l" by simp
  from Cons.IH [OF this, of "acc @ [g]"] g show ?case by simp
qed

lemma read_index_lines_some_bad:
  assumes "bad \<in> set ls" and "malformed_line bad"
  shows "\<exists>e. read_index_lines ls acc = Inl e"
  using assms(1)
proof (induction ls arbitrary: acc)
  case Nil
  then show ?case by simp
next
  case (Cons l ls)
  show ?case
  proof (cases "index_line l")
    case (Inl e)
    then show ?thesis by simp
  next
    case (Inr g)
    with assms(2) have "l \<noteq> bad" using index_line_error_iff [of bad] by auto
    with Cons.prems have "bad \<in> set ls" by simp
    from Cons.IH [OF this, of "acc @ [g]"] Inr show ?thesis by simp
  qed
qed

section \<open>Malformed index lines\<close>

text \<open>
  Claim C7, as the specification states it, asks that every line with the wrong number
  of tokens makes the parse fail.  The format has seven tokens.  A line of six tokens
  (the final \<open>;\<close> missing) and a line of nine tokens are both read without an error:
  the loop only indexes the fields 1, 3 and 5.
\<close>

theorem readGeneIndexes_accepts_other_token_counts:
  "length (str_split (str_rstrip (CHR 0x0A) (''charset G1 = 2 - 5'' @ [CHR 0x0A]))) = 6
   \<and> length (str_split (str_rstrip (CHR 0x0A) (''charset G2 = 6 - 9 ; and more'' @ [CHR 0x0A]))) = 9
   \<and> readGeneIndexes [''charset G1 = 2 - 5'' @ [CHR 0x0A],
                        ''charset G2 = 6 - 9 ; and more'' @ [CHR 0x0A]]
       = Inr [\<lparr>gname = ''G1'', gstart = 2, gend = 5\<rparr>, \<lparr>gname = ''G2'', gstart = 6, gend = 9\<rparr>]"
  by code_simp

text \<open>
  Claim C7, amended.  \<open>readGeneIndexes\<close> returns an error, and no gene list, exactly when
  some line has fewer than six whitespace-separated tokens or a token 3 or token 5
  (counted from zero) that \<open>int\<close> rejects.  The error is raised at the first such line:
  when the lines before it are free of these defects, the result is the error of that
  line, whatever follows it.  The number of tokens beyond six, and the tokens 0, 2 and
  4, are not examined.
\<close>

theorem readGeneIndexes_aborts_on_first_bad_line:
  "((\<exists>e. readGeneIndexes idx_file = Inl e) = (\<exists>l\<in>set idx_file. malformed_line l))
   \<and> (malformed_line bad \<longrightarrow> (\<forall>l\<in>set pre. \<not> malformed_line l) \<longrightarrow>
        (\<exists>e. index_line bad = Inl e \<and> readGeneIndexes (pre @ bad # rest) = Inl e))"
proof -
  have a: "(\<exists>e. readGeneIndexes idx_file = Inl e) = (\<exists>l\<in>set idx_file. malformed_line l)"
  proof
    assume err: "\<exists>e. readGeneIndexes idx_file = Inl e"
    show "\<exists>l\<in>set idx_file. malformed_line l"
    proof (rule ccontr)
      assume "\<not> (\<exists>l\<in>set idx_file. malformed_line l)"
      then have "\<forall>l\<in>set idx_file. \<not> malformed_line l" by blast
      from read_index_lines_ok [OF this, of "[]"] err show False
        by (auto simp: readGeneIndexes_def)
    qed
  next
    assume "\<exists>l\<in>set idx_file. malformed_line l"
    then obtain l where "l \<in> set idx_file" and "malformed_line l" by blast
    then show "\<exists>e. readGeneIndexes idx_file = Inl e"
      unfolding readGeneIndexes_def by (rule read_index_lines_some_bad)
  qed
  have b: "\<exists>e. index_line bad = Inl e \<and> readGeneIndexes (pre @ bad # rest) = Inl e"
    if m: "malformed_line bad" and ok: "\<forall>l\<in>set pre. \<not> malformed_line l"
  proof -
    from m obtain e where e: "index_line bad = Inl e"
      using index_line_error_iff [of bad] by blast
    from read_index_lines_first_bad [OF ok e, of rest "[]"] e show ?thesis
      by (simp add: readGeneIndexes_def)
  qed
  from a b show ?thesis by blast
qed

theorem readGeneIndexes_aborts_on_first_bad_line_witness:
  "malformed_line (''charset G2 = x - 9 ;'' @ [CHR 0x0A])
   \<and> \<not> malformed_line (''charset G1 = 2 - 5 ;'' @ [CHR 0x0A])
   \<and> readGeneIndexes [''charset G1 = 2 - 5 ;'' @ [CHR 0x0A],
                        ''charset G2 = x - 9 ;'' @ [CHR 0x0A],
                        ''charset G3 = 10 - 12 ;'' @ [CHR 0x0A]] = Inl ValueError
   \<and> readGeneIndexes [''charset G1 = 2 - 5 ;'' @ [CHR 0x0A],
                        ''charset G2 = 6'' @ [CHR 0x0A]] = Inl IndexError"
proof -
  let ?good = "''charset G1 = 2 - 5 ;'' @ [CHR 0x0A]"
  let ?bad = "''charset G2 = x - 9 ;'' @ [CHR 0x0A]"
  let ?short = "''charset G2 = 6'' @ [CHR 0x0A]"
  let ?more = "''charset G3 = 10 - 12 ;'' @ [CHR 0x0A]"
  have m: "malformed_line ?bad" and ms: "malformed_line ?short"
    and g: "\<not> malformed_line ?good" by code_simp+
  from g have ok: "\<forall>l\<in>set [?good]. \<not> malformed_line l" by simp
  have eb: "index_line ?bad = Inl ValueError" and es: "index_line ?short = Inl IndexError"
    by code_simp+
  note t = readGeneIndexes_aborts_on_first_bad_line
  from t [of _ ?bad "[?good]" "[?more]"] m ok
  obtain e where "index_line ?bad = Inl e" and "readGeneIndexes ([?good] @ ?bad # [?more]) = Inl e"
    by blast
  with eb have r1: "readGeneIndexes [?good, ?bad, ?more] = Inl ValueError" by simp
  from t [of _ ?short "[?good]" "[]"] ms ok
  obtain e' where "index_line ?short = Inl e'" and "readGeneIndexes ([?good] @ ?short # []) = Inl e'"
    by blast
  with es have r2: "readGeneIndexes [?good, ?short] = Inl IndexError" by simp
  from m g r1 r2 show ?thesis by (intro conjI)
qed

section \<open>When \<open>extractGene\<close> returns and what\<close>

lemma maxsize_pos: "0 < maxsize"
  by (simp add: maxsize_def)

lemma str_repeat_Inr: "str_repeat c k = Inr x \<Longrightarrow> x = replicate (nat k) c"
  by (auto simp: str_repeat_def split: if_splits)

lemma str_repeat_Inl: "str_repeat c k = Inl e \<Longrightarrow> e = OverflowError"
  by (auto simp: str_repeat_def split: if_splits)

lemma str_repeat_fits:
  "0 \<le> k \<Longrightarrow> k \<le> maxsize \<Longrightarrow> str_repeat c k = Inr (replicate (nat k) c)"
  using maxsize_pos by (simp add: str_repeat_def)

lemma str_repeat_over: "maxsize < k \<Longrightarrow> str_repeat c k = Inl OverflowError"
  by (simp add: str_repeat_def)

lemma extractGene_Inr:
  assumes "extractGene species gidx = Inr gene"
  shows "gene = extracted species gidx"
proof -
  define L where "L = gend gidx - gstart gidx + 1"
  define seq2 where "seq2 = str_lstrip (CHR ''-'') (str_replace (CHR ''?'') (CHR ''X'')
      (str_slice (sequence species) (gstart gidx - 1) (gend gidx)))"
  from assms obtain endseq where e1: "str_repeat (CHR ''X'') (L - int (length seq2)) = Inr endseq"
    by (cases "str_repeat (CHR ''X'') (L - int (length seq2))")
      (simp_all add: extractGene_def Let_def L_def seq2_def)
  define seq4 where "seq4 = str_rstrip (CHR ''-'') (endseq @ seq2)"
  from assms e1 obtain endseq2 where e2: "str_repeat (CHR ''X'') (L - int (length seq4)) = Inr endseq2"
    by (cases "str_repeat (CHR ''X'') (L - int (length seq4))")
      (simp_all add: extractGene_def Let_def L_def[symmetric] seq2_def[symmetric] seq4_def)
  from assms e1 e2 have g: "gene = \<lparr>name = name species, sequence = seq4 @ endseq2\<rparr>"
    by (simp add: extractGene_def Let_def L_def[symmetric] seq2_def[symmetric] seq4_def[symmetric])
  from e1 have r1: "endseq = replicate (nat (L - int (length seq2))) (CHR ''X'')"
    by (rule str_repeat_Inr)
  from e2 have r2: "endseq2 = replicate (nat (L - int (length seq4))) (CHR ''X'')"
    by (rule str_repeat_Inr)
  show ?thesis
    unfolding g extracted_def cleaned_def Let_def L_def[symmetric] seq2_def[symmetric]
    by (simp add: r2 seq4_def r1)
qed

lemma extractGene_Inl:
  assumes "extractGene species gidx = Inl e"
  shows "e = OverflowError"
  using assms
  by (auto simp: extractGene_def Let_def split: sum.splits dest: str_repeat_Inl)

lemma extractGene_overflow:
  assumes "maxsize < gend gidx - gstart gidx + 1
      - int (length (str_lstrip (CHR ''-'') (str_replace (CHR ''?'') (CHR ''X'')
          (str_slice (sequence species) (gstart gidx - 1) (gend gidx)))))"
  shows "extractGene species gidx = Inl OverflowError"
  using str_repeat_over [OF assms, of "CHR ''X''"]
  by (simp add: extractGene_def Let_def)

lemma extractGene_returns:
  assumes "1 \<le> gstart gidx" and "gstart gidx \<le> gend gidx"
    and "gend gidx - gstart gidx + 1 \<le> maxsize"
  shows "extractGene species gidx = Inr (extracted species gidx)"
proof -
  define L where "L = gend gidx - gstart gidx + 1"
  define w where "w = str_slice (sequence species) (gstart gidx - 1) (gend gidx)"
  define seq2 where "seq2 = str_lstrip (CHR ''-'') (str_replace (CHR ''?'') (CHR ''X'') w)"
  define endseq where "endseq = replicate (nat (L - int (length seq2))) (CHR ''X'')"
  define seq4 where "seq4 = str_rstrip (CHR ''-'') (endseq @ seq2)"
  define endseq2 where "endseq2 = replicate (nat (L - int (length seq4))) (CHR ''X'')"
  from assms(1,2) have wl: "int (length w) \<le> L"
    unfolding w_def L_def by (rule length_str_slice_le)
  have "length seq2 \<le> length (str_replace (CHR ''?'') (CHR ''X'') w)"
    unfolding seq2_def by (rule length_lstrip_le)
  then have "length seq2 \<le> length w" by (simp add: str_replace_def)
  with wl have k1: "0 \<le> L - int (length seq2)" and l3: "int (length (endseq @ seq2)) = L"
    by (simp_all add: endseq_def)
  from assms(3) have k1': "L - int (length seq2) \<le> maxsize" by (simp add: L_def)
  have "length seq4 \<le> length (endseq @ seq2)"
    unfolding seq4_def by (rule length_rstrip_le)
  with l3 have k2: "0 \<le> L - int (length seq4)" by linarith
  from assms(3) have k2': "L - int (length seq4) \<le> maxsize" by (simp add: L_def)
  from str_repeat_fits [OF k1 k1', of "CHR ''X''"]
  have e1: "str_repeat (CHR ''X'') (L - int (length seq2)) = Inr endseq"
    by (simp add: endseq_def)
  from str_repeat_fits [OF k2 k2', of "CHR ''X''"]
  have e2: "str_repeat (CHR ''X'') (L - int (length seq4)) = Inr endseq2"
    by (simp add: endseq2_def)
  have "extractGene species gidx = Inr \<lparr>name = name species, sequence = seq4 @ endseq2\<rparr>"
    unfolding extractGene_def Let_def L_def[symmetric] w_def[symmetric] seq2_def[symmetric]
    by (simp add: e1 seq4_def[symmetric] e2)
  moreover have "extracted species gidx = \<lparr>name = name species, sequence = seq4 @ endseq2\<rparr>"
    unfolding extracted_def cleaned_def Let_def L_def[symmetric] w_def[symmetric] seq2_def[symmetric]
    by (simp add: endseq_def[symmetric] seq4_def[symmetric] endseq2_def[symmetric])
  ultimately show ?thesis by simp
qed

section \<open>Length of an extracted gene\<close>

text \<open>
  Claim C1.  For every gene range with \<open>1 \<le> start \<le> end\<close> and every species sequence,
  the empty one and those shorter than the range included, the sequence returned by
  \<open>extractGene\<close> has exactly \<open>end - start + 1\<close> characters.  A sequence is returned
  whenever that length fits an index-sized integer.
\<close>

theorem extractGene_length:
  assumes "1 \<le> gstart gidx" and "gstart gidx \<le> gend gidx"
  shows "(\<forall>gene. extractGene species gidx = Inr gene \<longrightarrow>
            int (length (sequence gene)) = gend gidx - gstart gidx + 1)
       \<and> (gend gidx - gstart gidx + 1 \<le> maxsize \<longrightarrow>
            (\<exists>gene. extractGene species gidx = Inr gene))"
proof -
  have "int (length (sequence gene)) = gend gidx - gstart gidx + 1"
    if "extractGene species gidx = Inr gene" for gene
  proof -
    from that have "gene = extracted species gidx" by (rule extractGene_Inr)
    with extracted_length [OF assms, of species] show ?thesis by simp
  qed
  moreover have "\<exists>gene. extractGene species gidx = Inr gene"
    if "gend gidx - gstart gidx + 1 \<le> maxsize"
    using extractGene_returns [OF assms that] by blast
  ultimately show ?thesis by blast
qed

theorem extractGene_length_witness:
  "1 \<le> gstart \<lparr>gname = ''G1'', gstart = 3, gend = 8\<rparr>
   \<and> gstart \<lparr>gname = ''G1'', gstart = 3, gend = 8\<rparr> \<le> gend \<lparr>gname = ''G1'', gstart = 3, gend = 8\<rparr>
   \<and> gend \<lparr>gname = ''G1'', gstart = 3, gend = 8\<rparr> - gstart \<lparr>gname = ''G1'', gstart = 3, gend = 8\<rparr> + 1
        \<le> maxsize
   \<and> (\<exists>gene. extractGene \<lparr>name = ''A'', sequence = []\<rparr> \<lparr>gname = ''G1'', gstart = 3, gend = 8\<rparr>
                  = Inr gene \<and> int (length (sequence gene)) = 6)
   \<and> (\<exists>gene. extractGene \<lparr>name = ''B'', sequence = ''AC-T''\<rparr> \<lparr>gname = ''G1'', gstart = 3, gend = 8\<rparr>
                  = Inr gene \<and> int (length (sequence gene)) = 6)"
proof -
  let ?g = "\<lparr>gname = ''G1'', gstart = 3, gend = 8\<rparr>"
  let ?a = "\<lparr>name = ''A'', sequence = []\<rparr>"
  let ?b = "\<lparr>name = ''B'', sequence = ''AC-T''\<rparr>"
  have h1: "1 \<le> gstart ?g" and h2: "gstart ?g \<le> gend ?g" by simp_all
  have h3: "gend ?g - gstart ?g + 1 \<le> maxsize" by (simp add: maxsize_def)
  from extractGene_length [OF h1 h2, of ?a] h3
  have a: "\<exists>gene. extractGene ?a ?g = Inr gene \<and> int (length (sequence gene)) = 6"
    by auto
  from extractGene_length [OF h1 h2, of ?b] h3
  have b: "\<exists>gene. extractGene ?b ?g = Inr gene \<and> int (length (sequence gene)) = 6"
    by auto
  from h1 h2 h3 a b show ?thesis by (intro conjI)
qed

section \<open>What survives the clean-up\<close>

text \<open>
  Claim C9.  For every species and every gene range with \<open>1 \<le> start \<le> end\<close>, the
  sequence returned by \<open>extractGene\<close> has no \<open>?\<close>, and neither its first nor its last
  character is \<open>-\<close>: a \<open>-\<close> that remains is strictly inside.  A sequence is returned
  whenever the gene length fits an index-sized integer.
\<close>

theorem extractGene_no_unknown_no_edge_gap:
  assumes "1 \<le> gstart gidx" and "gstart gidx \<le> gend gidx"
  shows "(\<forall>gene. extractGene species gidx = Inr gene \<longrightarrow>
            CHR ''?'' \<notin> set (sequence gene)
          \<and> sequence gene \<noteq> []
          \<and> hd (sequence gene) \<noteq> CHR ''-''
          \<and> last (sequence gene) \<noteq> CHR ''-''
          \<and> (\<forall>i<length (sequence gene).
                sequence gene ! i = CHR ''-'' \<longrightarrow> 0 < i \<and> Suc i < length (sequence gene)))
       \<and> (gend gidx - gstart gidx + 1 \<le> maxsize \<longrightarrow>
            (\<exists>gene. extractGene species gidx = Inr gene))"
proof -
  have "CHR ''?'' \<notin> set (sequence gene)
          \<and> sequence gene \<noteq> []
          \<and> hd (sequence gene) \<noteq> CHR ''-''
          \<and> last (sequence gene) \<noteq> CHR ''-''
          \<and> (\<forall>i<length (sequence gene).
                sequence gene ! i = CHR ''-'' \<longrightarrow> 0 < i \<and> Suc i < length (sequence gene))"
    if "extractGene species gidx = Inr gene" for gene
  proof -
    from that have "gene = extracted species gidx" by (rule extractGene_Inr)
    with extracted_no_unknown_no_edge_gap [OF assms, of species] show ?thesis by simp
  qed
  moreover have "\<exists>gene. extractGene species gidx = Inr gene"
    if "gend gidx - gstart gidx + 1 \<le> maxsize"
    using extractGene_returns [OF assms that] by blast
  ultimately show ?thesis by blast
qed

theorem extractGene_no_unknown_no_edge_gap_witness:
  "1 \<le> gstart \<lparr>gname = ''G1'', gstart = 3, gend = 8\<rparr>
   \<and> gstart \<lparr>gname = ''G1'', gstart = 3, gend = 8\<rparr> \<le> gend \<lparr>gname = ''G1'', gstart = 3, gend = 8\<rparr>
   \<and> extractGene \<lparr>name = ''A'', sequence = ''GG?A-C--TT''\<rparr> \<lparr>gname = ''G1'', gstart = 3, gend = 8\<rparr>
       = Inr \<lparr>name = ''A'', sequence = ''XA-CXX''\<rparr>
   \<and> CHR ''?'' \<notin> set (sequence \<lparr>name = ''A'', sequence = ''XA-CXX''\<rparr>)
   \<and> hd (sequence \<lparr>name = ''A'', sequence = ''XA-CXX''\<rparr>) \<noteq> CHR ''-''
   \<and> last (sequence \<lparr>name = ''A'', sequence = ''XA-CXX''\<rparr>) \<noteq> CHR ''-''
   \<and> (2::nat) < length (sequence \<lparr>name = ''A'', sequence = ''XA-CXX''\<rparr>)
   \<and> sequence \<lparr>name = ''A'', sequence = ''XA-CXX''\<rparr> ! 2 = CHR ''-''
   \<and> Suc 2 < length (sequence \<lparr>name = ''A'', sequence = ''XA-CXX''\<rparr>)"
proof -
  let ?g = "\<lparr>gname = ''G1'', gstart = 3, gend = 8\<rparr>"
  let ?s = "\<lparr>name = ''A'', sequence = ''GG?A-C--TT''\<rparr>"
  let ?r = "\<lparr>name = ''A'', sequence = ''XA-CXX''\<rparr>"
  have h1: "1 \<le> gstart ?g" and h2: "gstart ?g \<le> gend ?g" by simp_all
  have r: "extractGene ?s ?g = Inr ?r" by code_simp
  have i: "(2::nat) < length (sequence ?r)" and d: "sequence ?r ! 2 = CHR ''-''" by simp_all
  from extractGene_no_unknown_no_edge_gap [OF h1 h2, of ?s]
  have "\<forall>gene. extractGene ?s ?g = Inr gene \<longrightarrow>
            CHR ''?'' \<notin> set (sequence gene)
          \<and> sequence gene \<noteq> []
          \<and> hd (sequence gene) \<noteq> CHR ''-''
          \<and> last (sequence gene) \<noteq> CHR ''-''
          \<and> (\<forall>i<length (sequence gene).
                sequence gene ! i = CHR ''-'' \<longrightarrow> 0 < i \<and> Suc i < length (sequence gene))"
    by (rule conjunct1)
  note t = this [rule_format, OF r]
  from t have q: "CHR ''?'' \<notin> set (sequence ?r)" by (elim conjE)
  from t have h: "hd (sequence ?r) \<noteq> CHR ''-''" by (elim conjE)
  from t have l: "last (sequence ?r) \<noteq> CHR ''-''" by (elim conjE)
  from t have a: "\<forall>i<length (sequence ?r).
                sequence ?r ! i = CHR ''-'' \<longrightarrow> 0 < i \<and> Suc i < length (sequence ?r)"
    by (elim conjE)
  from a [rule_format, OF i d] have s: "Suc 2 < length (sequence ?r)" by (rule conjunct2)
  from h1 h2 r q h l i d s show ?thesis by (intro conjI)
qed

lemma extractGene_fixpoint:
  assumes "length r = nat L" and "1 \<le> L"
    and "CHR ''?'' \<notin> set r" and "hd r \<noteq> CHR ''-''" and "last r \<noteq> CHR ''-''"
  shows "extractGene \<lparr>name = n, sequence = r\<rparr> \<lparr>gname = m, gstart = 1, gend = L\<rparr>
       = Inr \<lparr>name = n, sequence = r\<rparr>"
proof -
  have "str_slice r (1 - 1) L = window r 1 L"
    using _ assms(2) by (rule str_slice_window) simp
  with assms(1) have w: "str_slice r 0 L = r" by (simp add: window_def)
  have s1: "str_replace (CHR ''?'') (CHR ''X'') r = r"
    unfolding str_replace_def using assms(3) by (induction r) auto
  have s2: "str_lstrip (CHR ''-'') r = r"
    by (rule lstrip_id) (use assms in simp)
  have s4: "str_rstrip (CHR ''-'') r = r"
    by (rule rstrip_id) (use assms in simp)
  from assms(1,2) have z: "L - int (length r) = 0" by simp
  have e: "str_repeat (CHR ''X'') 0 = Inr []"
    using str_repeat_fits [of 0 "CHR ''X''"] maxsize_pos by simp
  show ?thesis
    by (simp add: extractGene_def Let_def w s1 s2 z e s4)
qed

text \<open>
  Claim C4.  \<open>extractGene\<close> is idempotent on its own output: with \<open>r\<close> the returned
  sequence and \<open>L = end - start + 1\<close>, extracting the range \<open>[1, L]\<close> from a
  pseudo-species whose sequence is \<open>r\<close> returns \<open>r\<close> again.
\<close>

theorem extractGene_idempotent:
  assumes "1 \<le> gstart gidx" and "gstart gidx \<le> gend gidx"
    and "extractGene species gidx = Inr gene"
  shows "extractGene \<lparr>name = n, sequence = sequence gene\<rparr>
                     \<lparr>gname = m, gstart = 1, gend = gend gidx - gstart gidx + 1\<rparr>
         = Inr \<lparr>name = n, sequence = sequence gene\<rparr>"
proof -
  define L where "L = gend gidx - gstart gidx + 1"
  define r where "r = sequence gene"
  from assms(3) have "gene = extracted species gidx" by (rule extractGene_Inr)
  then have rc: "r = cleaned L (str_slice (sequence species) (gstart gidx - 1) (gend gidx))"
    by (simp add: r_def extracted_def L_def)
  from assms(1,2) have L1: "1 \<le> L" by (simp add: L_def)
  have sl: "int (length (str_slice (sequence species) (gstart gidx - 1) (gend gidx))) \<le> L"
    unfolding L_def using assms(1,2) by (rule length_str_slice_le)
  then have len: "length r = nat L"
    unfolding rc by (rule length_cleaned)
  from sl L1 have e: "r \<noteq> [] \<and> hd r \<noteq> CHR ''-'' \<and> last r \<noteq> CHR ''-'' \<and> CHR ''?'' \<notin> set r"
    unfolding rc by (rule cleaned_edges)
  from len L1 e have "extractGene \<lparr>name = n, sequence = r\<rparr> \<lparr>gname = m, gstart = 1, gend = L\<rparr>
       = Inr \<lparr>name = n, sequence = r\<rparr>"
    by (intro extractGene_fixpoint) simp_all
  then show ?thesis unfolding r_def L_def .
qed

theorem extractGene_idempotent_witness:
  "1 \<le> gstart \<lparr>gname = ''G1'', gstart = 3, gend = 8\<rparr>
   \<and> gstart \<lparr>gname = ''G1'', gstart = 3, gend = 8\<rparr> \<le> gend \<lparr>gname = ''G1'', gstart = 3, gend = 8\<rparr>
   \<and> extractGene \<lparr>name = ''A'', sequence = ''GG?A-C--TT''\<rparr> \<lparr>gname = ''G1'', gstart = 3, gend = 8\<rparr>
       = Inr \<lparr>name = ''A'', sequence = ''XA-CXX''\<rparr>
   \<and> extractGene \<lparr>name = ''A'', sequence = ''XA-CXX''\<rparr> \<lparr>gname = ''G1'', gstart = 1, gend = 6\<rparr>
       = Inr \<lparr>name = ''A'', sequence = ''XA-CXX''\<rparr>"
proof -
  let ?g = "\<lparr>gname = ''G1'', gstart = 3, gend = 8\<rparr>"
  let ?s = "\<lparr>name = ''A'', sequence = ''GG?A-C--TT''\<rparr>"
  let ?r = "\<lparr>name = ''A'', sequence = ''XA-CXX''\<rparr>"
  have h1: "1 \<le> gstart ?g" and h2: "gstart ?g \<le> gend ?g" by simp_all
  have r: "extractGene ?s ?g = Inr ?r" by code_simp
  from extractGene_idempotent [OF h1 h2 r, of "''A''" "''G1''"]
  have "extractGene ?r \<lparr>gname = ''G1'', gstart = 1, gend = 6\<rparr> = Inr ?r" by simp
  with h1 h2 r show ?thesis by (intro conjI)
qed

section \<open>Windows without information\<close>

text \<open>
  Claim C6.  For a gene range that lies within the species sequence: if every character
  of the window is \<open>-\<close>, \<open>extractGene\<close> returns \<open>end - start + 1\<close> characters \<open>X\<close>
  and \<open>isValidGene\<close> rejects the result; the same holds if every character of the
  window is \<open>?\<close>.  The result is returned whenever the gene length fits an index-sized
  integer, as the length of every Python string does.
\<close>

theorem extractGene_all_gap_or_unknown:
  assumes "1 \<le> gstart gidx" and "gstart gidx \<le> gend gidx"
    and "gend gidx \<le> int (length (sequence species))"
    and "(\<forall>c\<in>set (window (sequence species) (gstart gidx) (gend gidx)). c = CHR ''-'')
       \<or> (\<forall>c\<in>set (window (sequence species) (gstart gidx) (gend gidx)). c = CHR ''?'')"
  shows "(\<forall>gene. extractGene species gidx = Inr gene \<longrightarrow>
            sequence gene = replicate (nat (gend gidx - gstart gidx + 1)) (CHR ''X'')
          \<and> \<not> isValidGene gene)
       \<and> (gend gidx - gstart gidx + 1 \<le> maxsize \<longrightarrow>
            (\<exists>gene. extractGene species gidx = Inr gene))"
proof -
  have "sequence gene = replicate (nat (gend gidx - gstart gidx + 1)) (CHR ''X'')
          \<and> \<not> isValidGene gene"
    if "extractGene species gidx = Inr gene" for gene
  proof -
    from that have "gene = extracted species gidx" by (rule extractGene_Inr)
    with extracted_all_gap_or_unknown [OF assms] show ?thesis by simp
  qed
  moreover have "\<exists>gene. extractGene species gidx = Inr gene"
    if "gend gidx - gstart gidx + 1 \<le> maxsize"
    using extractGene_returns [OF assms(1,2) that] by blast
  ultimately show ?thesis by blast
qed

theorem extractGene_all_gap_or_unknown_witness:
  "1 \<le> gstart \<lparr>gname = ''G1'', gstart = 3, gend = 5\<rparr>
   \<and> gstart \<lparr>gname = ''G1'', gstart = 3, gend = 5\<rparr> \<le> gend \<lparr>gname = ''G1'', gstart = 3, gend = 5\<rparr>
   \<and> gend \<lparr>gname = ''G1'', gstart = 3, gend = 5\<rparr> \<le> int (length (sequence \<lparr>name = ''A'', sequence = ''AC---GT''\<rparr>))
   \<and> gend \<lparr>gname = ''G1'', gstart = 3, gend = 5\<rparr> \<le> int (length (sequence \<lparr>name = ''B'', sequence = ''AC???GT''\<rparr>))
   \<and> window (sequence \<lparr>name = ''A'', sequence = ''AC---GT''\<rparr>) 3 5 = ''---''
   \<and> window (sequence \<lparr>name = ''B'', sequence = ''AC???GT''\<rparr>) 3 5 = ''???''
   \<and> extractGene \<lparr>name = ''A'', sequence = ''AC---GT''\<rparr> \<lparr>gname = ''G1'', gstart = 3, gend = 5\<rparr>
       = Inr \<lparr>name = ''A'', sequence = ''XXX''\<rparr>
   \<and> \<not> isValidGene \<lparr>name = ''A'', sequence = ''XXX''\<rparr>
   \<and> extractGene \<lparr>name = ''B'', sequence = ''AC???GT''\<rparr> \<lparr>gname = ''G1'', gstart = 3, gend = 5\<rparr>
       = Inr \<lparr>name = ''B'', sequence = ''XXX''\<rparr>
   \<and> \<not> isValidGene \<lparr>name = ''B'', sequence = ''XXX''\<rparr>"
proof -
  let ?g = "\<lparr>gname = ''G1'', gstart = 3, gend = 5\<rparr>"
  let ?a = "\<lparr>name = ''A'', sequence = ''AC---GT''\<rparr>"
  let ?b = "\<lparr>name = ''B'', sequence = ''AC???GT''\<rparr>"
  let ?ra = "\<lparr>name = ''A'', sequence = ''XXX''\<rparr>"
  let ?rb = "\<lparr>name = ''B'', sequence = ''XXX''\<rparr>"
  have h1: "1 \<le> gstart ?g" and h2: "gstart ?g \<le> gend ?g"
    and h3a: "gend ?g \<le> int (length (sequence ?a))"
    and h3b: "gend ?g \<le> int (length (sequence ?b))" by simp_all
  have va: "window (sequence ?a) 3 5 = ''---''"
   and vb: "window (sequence ?b) 3 5 = ''???''"
    by (simp_all add: window_def)
  then have wa: "\<forall>c\<in>set (window (sequence ?a) 3 5). c = CHR ''-''"
   and wb: "\<forall>c\<in>set (window (sequence ?b) 3 5). c = CHR ''?''"
    by simp_all
  from wa have h4a: "(\<forall>c\<in>set (window (sequence ?a) (gstart ?g) (gend ?g)). c = CHR ''-'')
       \<or> (\<forall>c\<in>set (window (sequence ?a) (gstart ?g) (gend ?g)). c = CHR ''?'')" by simp
  from wb have h4b: "(\<forall>c\<in>set (window (sequence ?b) (gstart ?g) (gend ?g)). c = CHR ''-'')
       \<or> (\<forall>c\<in>set (window (sequence ?b) (gstart ?g) (gend ?g)). c = CHR ''?'')" by simp
  have ra: "extractGene ?a ?g = Inr ?ra" and rb: "extractGene ?b ?g = Inr ?rb" by code_simp+
  from extractGene_all_gap_or_unknown [OF h1 h2 h3a h4a]
  have "\<forall>gene. extractGene ?a ?g = Inr gene \<longrightarrow>
            sequence gene = replicate (nat (gend ?g - gstart ?g + 1)) (CHR ''X'')
          \<and> \<not> isValidGene gene"
    by (rule conjunct1)
  from this [rule_format, OF ra] have ia: "\<not> isValidGene ?ra" by (rule conjunct2)
  from extractGene_all_gap_or_unknown [OF h1 h2 h3b h4b]
  have "\<forall>gene. extractGene ?b ?g = Inr gene \<longrightarrow>
            sequence gene = replicate (nat (gend ?g - gstart ?g + 1)) (CHR ''X'')
          \<and> \<not> isValidGene gene"
    by (rule conjunct1)
  from this [rule_format, OF rb] have ib: "\<not> isValidGene ?rb" by (rule conjunct2)
  from h1 h2 h3a h3b va vb ra ia rb ib show ?thesis by (intro conjI)
qed

section \<open>Ranges that run past the end of the sequence\<close>

text \<open>
  Claim C8, as the specification states it, asks that \<open>extractGene\<close> never fails and
  always returns a result for a range with \<open>1 \<le> start \<le> end\<close> that ends beyond the
  sequence.  For the sequence \<open>ACGT\<close> and the range from 1 to \<open>10 ^ 30\<close>, which the
  index parser accepts, the slice is \<open>ACGT\<close> and the first repetition is asked for
  \<open>10 ^ 30 - 4\<close> characters: it raises \<open>OverflowError\<close>, and nothing is returned.
\<close>

theorem extractGene_huge_range_overflows:
  "1 \<le> gstart \<lparr>gname = ''G1'', gstart = 1, gend = 1000000000000000000000000000000\<rparr>
   \<and> gstart \<lparr>gname = ''G1'', gstart = 1, gend = 1000000000000000000000000000000\<rparr>
       \<le> gend \<lparr>gname = ''G1'', gstart = 1, gend = 1000000000000000000000000000000\<rparr>
   \<and> int (length (sequence \<lparr>name = ''A'', sequence = ''ACGT''\<rparr>))
       < gend \<lparr>gname = ''G1'', gstart = 1, gend = 1000000000000000000000000000000\<rparr>
   \<and> readGeneIndexes [''charset G1 = 1 - 1000000000000000000000000000000 ;'']
       = Inr [\<lparr>gname = ''G1'', gstart = 1, gend = 1000000000000000000000000000000\<rparr>]
   \<and> str_slice (sequence \<lparr>name = ''A'', sequence = ''ACGT''\<rparr>) (1 - 1) 1000000000000000000000000000000
       = ''ACGT''
   \<and> extractGene \<lparr>name = ''A'', sequence = ''ACGT''\<rparr>
         \<lparr>gname = ''G1'', gstart = 1, gend = 1000000000000000000000000000000\<rparr>
       = Inl OverflowError"
proof -
  let ?g = "\<lparr>gname = ''G1'', gstart = 1, gend = 1000000000000000000000000000000\<rparr>"
  let ?s = "\<lparr>name = ''A'', sequence = ''ACGT''\<rparr>"
  have h1: "1 \<le> gstart ?g" and h2: "gstart ?g \<le> gend ?g"
    and h3: "int (length (sequence ?s)) < gend ?g" by simp_all
  have idx: "readGeneIndexes [''charset G1 = 1 - 1000000000000000000000000000000 ;''] = Inr [?g]"
    by code_simp
  have "str_slice (sequence ?s) (gstart ?g - 1) (gend ?g) = window (sequence ?s) (gstart ?g) (gend ?g)"
    using h1 h2 by (rule str_slice_window)
  then have sl: "str_slice (sequence ?s) (gstart ?g - 1) (gend ?g) = ''ACGT''"
    by (simp add: window_def)
  have "str_lstrip (CHR ''-'') (str_replace (CHR ''?'') (CHR ''X'') ''ACGT'') = ''ACGT''"
    by (simp add: str_lstrip_def str_replace_def)
  with sl have "maxsize < gend ?g - gstart ?g + 1
      - int (length (str_lstrip (CHR ''-'') (str_replace (CHR ''?'') (CHR ''X'')
          (str_slice (sequence ?s) (gstart ?g - 1) (gend ?g)))))"
    by (simp add: maxsize_def)
  then have ov: "extractGene ?s ?g = Inl OverflowError"
    by (rule extractGene_overflow)
  from sl have sl': "str_slice (sequence ?s) (1 - 1) 1000000000000000000000000000000 = ''ACGT''"
    by simp
  from h1 h2 h3 idx sl' ov show ?thesis by (intro conjI)
qed

text \<open>
  Claim C8, amended.  For every gene range with \<open>1 \<le> start \<le> end\<close> and every sequence,
  the slice of \<open>extractGene\<close> does not fail: it is the window of the characters that
  exist at the positions \<open>start..end\<close>, and when \<open>end\<close> exceeds the length of the
  sequence it is everything from position \<open>start\<close> on, which is shorter than the range.
  Whenever the gene length \<open>end - start + 1\<close> is at most \<open>sys.maxsize\<close>, the call then
  returns a record with the species name and a sequence of the gene length: the window,
  with \<open>?\<close> replaced and edge gaps stripped, between two runs of \<open>X\<close>.  When the
  gene length exceeds the length of the stripped slice by more than \<open>sys.maxsize\<close>, the
  first repetition raises \<open>OverflowError\<close> and nothing is returned.  No other exception
  is raised.
\<close>

theorem extractGene_clips_slice:
  assumes "1 \<le> gstart gidx" and "gstart gidx \<le> gend gidx"
  shows "str_slice (sequence species) (gstart gidx - 1) (gend gidx)
           = take (nat (gend gidx - gstart gidx + 1)) (drop (nat (gstart gidx - 1)) (sequence species))
    \<and> (int (length (sequence species)) < gend gidx \<longrightarrow>
          str_slice (sequence species) (gstart gidx - 1) (gend gidx)
            = drop (nat (gstart gidx - 1)) (sequence species)
          \<and> int (length (str_slice (sequence species) (gstart gidx - 1) (gend gidx)))
              < gend gidx - gstart gidx + 1)
    \<and> (gend gidx - gstart gidx + 1 \<le> maxsize \<longrightarrow>
         (\<exists>pre core post.
            extractGene species gidx
              = Inr \<lparr>name = name species,
                     sequence = replicate pre (CHR ''X'') @ core @ replicate post (CHR ''X'')\<rparr>
            \<and> core = str_rstrip (CHR ''-'') (str_lstrip (CHR ''-'') (str_replace (CHR ''?'') (CHR ''X'')
                        (str_slice (sequence species) (gstart gidx - 1) (gend gidx))))
            \<and> int (pre + length core + post) = gend gidx - gstart gidx + 1))
    \<and> (maxsize < gend gidx - gstart gidx + 1
           - int (length (str_lstrip (CHR ''-'') (str_replace (CHR ''?'') (CHR ''X'')
               (str_slice (sequence species) (gstart gidx - 1) (gend gidx)))))
         \<longrightarrow> extractGene species gidx = Inl OverflowError)
    \<and> (\<forall>e. extractGene species gidx = Inl e \<longrightarrow> e = OverflowError)"
proof -
  note old = extracted_clips_slice [OF assms, of species]
  from old have a: "str_slice (sequence species) (gstart gidx - 1) (gend gidx)
           = take (nat (gend gidx - gstart gidx + 1)) (drop (nat (gstart gidx - 1)) (sequence species))"
    by (elim conjE)
  from old have b: "int (length (sequence species)) < gend gidx \<longrightarrow>
          str_slice (sequence species) (gstart gidx - 1) (gend gidx)
            = drop (nat (gstart gidx - 1)) (sequence species)
          \<and> int (length (str_slice (sequence species) (gstart gidx - 1) (gend gidx)))
              < gend gidx - gstart gidx + 1"
    by (elim conjE)
  from old obtain pre core post where
    ex: "extracted species gidx
            = \<lparr>name = name species,
               sequence = replicate pre (CHR ''X'') @ core @ replicate post (CHR ''X'')\<rparr>"
    and co: "core = str_rstrip (CHR ''-'') (str_lstrip (CHR ''-'') (str_replace (CHR ''?'') (CHR ''X'')
                        (str_slice (sequence species) (gstart gidx - 1) (gend gidx))))"
    and to: "int (pre + length core + post) = gend gidx - gstart gidx + 1"
    by (elim conjE exE)
  have c: "\<exists>pre core post.
            extractGene species gidx
              = Inr \<lparr>name = name species,
                     sequence = replicate pre (CHR ''X'') @ core @ replicate post (CHR ''X'')\<rparr>
            \<and> core = str_rstrip (CHR ''-'') (str_lstrip (CHR ''-'') (str_replace (CHR ''?'') (CHR ''X'')
                        (str_slice (sequence species) (gstart gidx - 1) (gend gidx))))
            \<and> int (pre + length core + post) = gend gidx - gstart gidx + 1"
    if "gend gidx - gstart gidx + 1 \<le> maxsize"
  proof -
    from extractGene_returns [OF assms that, of species] ex
    have "extractGene species gidx
        = Inr \<lparr>name = name species,
               sequence = replicate pre (CHR ''X'') @ core @ replicate post (CHR ''X'')\<rparr>"
      by simp
    with co to show ?thesis by blast
  qed
  have d: "extractGene species gidx = Inl OverflowError"
    if "maxsize < gend gidx - gstart gidx + 1
           - int (length (str_lstrip (CHR ''-'') (str_replace (CHR ''?'') (CHR ''X'')
               (str_slice (sequence species) (gstart gidx - 1) (gend gidx)))))"
    using that by (rule extractGene_overflow)
  have e: "e = OverflowError" if "extractGene species gidx = Inl e" for e
    using that by (rule extractGene_Inl)
  from a b c d e show ?thesis by blast
qed

theorem extractGene_clips_slice_witness:
  "1 \<le> gstart \<lparr>gname = ''G1'', gstart = 3, gend = 8\<rparr>
   \<and> gstart \<lparr>gname = ''G1'', gstart = 3, gend = 8\<rparr> \<le> gend \<lparr>gname = ''G1'', gstart = 3, gend = 8\<rparr>
   \<and> int (length (sequence \<lparr>name = ''A'', sequence = ''AC-T''\<rparr>))
        < gend \<lparr>gname = ''G1'', gstart = 3, gend = 8\<rparr>
   \<and> gend \<lparr>gname = ''G1'', gstart = 3, gend = 8\<rparr> - gstart \<lparr>gname = ''G1'', gstart = 3, gend = 8\<rparr> + 1
        \<le> maxsize
   \<and> str_slice (sequence \<lparr>name = ''A'', sequence = ''AC-T''\<rparr>)
         (gstart \<lparr>gname = ''G1'', gstart = 3, gend = 8\<rparr> - 1)
         (gend \<lparr>gname = ''G1'', gstart = 3, gend = 8\<rparr>) = ''-T''
   \<and> (\<exists>pre post. extractGene \<lparr>name = ''A'', sequence = ''AC-T''\<rparr> \<lparr>gname = ''G1'', gstart = 3, gend = 8\<rparr>
       = Inr \<lparr>name = ''A'', sequence = replicate pre (CHR ''X'') @ ''T'' @ replicate post (CHR ''X'')\<rparr>
       \<and> int (pre + 1 + post) = 6)
   \<and> extractGene \<lparr>name = ''A'', sequence = ''AC-T''\<rparr> \<lparr>gname = ''G1'', gstart = 3, gend = 8\<rparr>
       = Inr \<lparr>name = ''A'', sequence = ''XXXXXT''\<rparr>"
proof -
  let ?g = "\<lparr>gname = ''G1'', gstart = 3, gend = 8\<rparr>"
  let ?s = "\<lparr>name = ''A'', sequence = ''AC-T''\<rparr>"
  have h1: "1 \<le> gstart ?g" and h2: "gstart ?g \<le> gend ?g"
    and h3: "int (length (sequence ?s)) < gend ?g" by simp_all
  have h4: "gend ?g - gstart ?g + 1 \<le> maxsize" by (simp add: maxsize_def)
  have d: "drop (nat (gstart ?g - 1)) (sequence ?s) = ''-T''" by code_simp
  note t = extractGene_clips_slice [OF h1 h2, of ?s]
  from t h3 d have sl: "str_slice (sequence ?s) (gstart ?g - 1) (gend ?g) = ''-T''" by simp
  have co: "str_rstrip (CHR ''-'') (str_lstrip (CHR ''-'') (str_replace (CHR ''?'') (CHR ''X'') ''-T''))
      = ''T''" by code_simp
  from t h4 obtain pre core post where
    ex: "extractGene ?s ?g
          = Inr \<lparr>name = name ?s, sequence = replicate pre (CHR ''X'') @ core @ replicate post (CHR ''X'')\<rparr>"
    and c: "core = str_rstrip (CHR ''-'') (str_lstrip (CHR ''-'') (str_replace (CHR ''?'') (CHR ''X'')
                        (str_slice (sequence ?s) (gstart ?g - 1) (gend ?g))))"
    and to: "int (pre + length core + post) = gend ?g - gstart ?g + 1"
    by auto
  from c sl co have core: "core = ''T''" by simp
  from ex to core have "extractGene ?s ?g
       = Inr \<lparr>name = ''A'', sequence = replicate pre (CHR ''X'') @ ''T'' @ replicate post (CHR ''X'')\<rparr>
       \<and> int (pre + 1 + post) = 6"
    by simp
  then have shape: "\<exists>pre post. extractGene ?s ?g
       = Inr \<lparr>name = ''A'', sequence = replicate pre (CHR ''X'') @ ''T'' @ replicate post (CHR ''X'')\<rparr>
       \<and> int (pre + 1 + post) = 6"
    by (intro exI)
  have r: "extractGene ?s ?g = Inr \<lparr>name = ''A'', sequence = ''XXXXXT''\<rparr>" by code_simp
  from h1 h2 h3 h4 sl shape r show ?thesis by (intro conjI)
qed

section \<open>Edge gaps and inner gaps\<close>

text \<open>
  Claim C3, as the specification states it, asks that a window inside the sequence with
  some character other than \<open>-\<close> and \<open>?\<close> always gives a valid gene.  The window
  \<open>-X?-\<close> has such a character, \<open>X\<close>, and is cleaned to \<open>XXXX\<close>, which \<open>isValidGene\<close>
  rejects.
\<close>

theorem extractGene_window_with_X_invalid:
  "1 \<le> gstart \<lparr>gname = ''G1'', gstart = 3, gend = 6\<rparr>
   \<and> gstart \<lparr>gname = ''G1'', gstart = 3, gend = 6\<rparr> \<le> gend \<lparr>gname = ''G1'', gstart = 3, gend = 6\<rparr>
   \<and> gend \<lparr>gname = ''G1'', gstart = 3, gend = 6\<rparr>
        \<le> int (length (sequence \<lparr>name = ''A'', sequence = ''AC-X?-GT''\<rparr>))
   \<and> window (sequence \<lparr>name = ''A'', sequence = ''AC-X?-GT''\<rparr>) 3 6 = ''-X?-''
   \<and> CHR ''X'' \<in> set (window (sequence \<lparr>name = ''A'', sequence = ''AC-X?-GT''\<rparr>) 3 6)
   \<and> CHR ''X'' \<noteq> CHR ''-'' \<and> CHR ''X'' \<noteq> CHR ''?''
   \<and> extractGene \<lparr>name = ''A'', sequence = ''AC-X?-GT''\<rparr> \<lparr>gname = ''G1'', gstart = 3, gend = 6\<rparr>
       = Inr \<lparr>name = ''A'', sequence = ''XXXX''\<rparr>
   \<and> \<not> isValidGene \<lparr>name = ''A'', sequence = ''XXXX''\<rparr>"
  by code_simp

text \<open>
  Claim C3, amended.  For every gene range that lies within the species sequence and
  whose window has a character that is neither \<open>-\<close> nor \<open>?\<close>, the returned sequence has
  the length of the window and differs from it only where the window has its leading
  run of \<open>-\<close>, its trailing run of \<open>-\<close>, or a \<open>?\<close>: there the result has \<open>X\<close>, and
  every inner \<open>-\<close> and every other character stays in place.  \<open>isValidGene\<close> accepts
  the result whenever the window has a character that is none of \<open>-\<close>, \<open>?\<close> and \<open>X\<close>.
  The result is returned whenever the gene length fits an index-sized integer, as the
  length of every Python string does.
\<close>

theorem extractGene_edge_gaps_only:
  assumes "1 \<le> gstart gidx" and "gstart gidx \<le> gend gidx"
    and "gend gidx \<le> int (length (sequence species))"
    and "\<exists>c\<in>set (window (sequence species) (gstart gidx) (gend gidx)).
           c \<noteq> CHR ''-'' \<and> c \<noteq> CHR ''?''"
  shows "(\<forall>gene. extractGene species gidx = Inr gene \<longrightarrow>
      length (sequence gene) = length (window (sequence species) (gstart gidx) (gend gidx))
    \<and> (\<forall>i<length (window (sequence species) (gstart gidx) (gend gidx)).
          sequence gene ! i =
            (if i < lead_gaps (window (sequence species) (gstart gidx) (gend gidx))
                \<or> length (window (sequence species) (gstart gidx) (gend gidx))
                     - trail_gaps (window (sequence species) (gstart gidx) (gend gidx)) \<le> i
                \<or> window (sequence species) (gstart gidx) (gend gidx) ! i = CHR ''?''
             then CHR ''X''
             else window (sequence species) (gstart gidx) (gend gidx) ! i))
    \<and> ((\<exists>c\<in>set (window (sequence species) (gstart gidx) (gend gidx)).
            c \<noteq> CHR ''-'' \<and> c \<noteq> CHR ''?'' \<and> c \<noteq> CHR ''X'')
         \<longrightarrow> isValidGene gene))
    \<and> (gend gidx - gstart gidx + 1 \<le> maxsize \<longrightarrow>
         (\<exists>gene. extractGene species gidx = Inr gene))"
proof -
  have "length (sequence gene) = length (window (sequence species) (gstart gidx) (gend gidx))
    \<and> (\<forall>i<length (window (sequence species) (gstart gidx) (gend gidx)).
          sequence gene ! i =
            (if i < lead_gaps (window (sequence species) (gstart gidx) (gend gidx))
                \<or> length (window (sequence species) (gstart gidx) (gend gidx))
                     - trail_gaps (window (sequence species) (gstart gidx) (gend gidx)) \<le> i
                \<or> window (sequence species) (gstart gidx) (gend gidx) ! i = CHR ''?''
             then CHR ''X''
             else window (sequence species) (gstart gidx) (gend gidx) ! i))
    \<and> ((\<exists>c\<in>set (window (sequence species) (gstart gidx) (gend gidx)).
            c \<noteq> CHR ''-'' \<and> c \<noteq> CHR ''?'' \<and> c \<noteq> CHR ''X'')
         \<longrightarrow> isValidGene gene)"
    if "extractGene species gidx = Inr gene" for gene
  proof -
    from that have "gene = extracted species gidx" by (rule extractGene_Inr)
    with extracted_edge_gaps_only [OF assms] show ?thesis by simp
  qed
  moreover have "\<exists>gene. extractGene species gidx = Inr gene"
    if "gend gidx - gstart gidx + 1 \<le> maxsize"
    using extractGene_returns [OF assms(1,2) that] by blast
  ultimately show ?thesis by blast
qed

theorem extractGene_edge_gaps_only_witness:
  "1 \<le> gstart \<lparr>gname = ''G1'', gstart = 2, gend = 8\<rparr>
   \<and> gstart \<lparr>gname = ''G1'', gstart = 2, gend = 8\<rparr> \<le> gend \<lparr>gname = ''G1'', gstart = 2, gend = 8\<rparr>
   \<and> gend \<lparr>gname = ''G1'', gstart = 2, gend = 8\<rparr>
        \<le> int (length (sequence \<lparr>name = ''A'', sequence = ''G-?A-C--T''\<rparr>))
   \<and> window (sequence \<lparr>name = ''A'', sequence = ''G-?A-C--T''\<rparr>) 2 8 = ''-?A-C--''
   \<and> extractGene \<lparr>name = ''A'', sequence = ''G-?A-C--T''\<rparr> \<lparr>gname = ''G1'', gstart = 2, gend = 8\<rparr>
       = Inr \<lparr>name = ''A'', sequence = ''XXA-CXX''\<rparr>
   \<and> length (sequence \<lparr>name = ''A'', sequence = ''XXA-CXX''\<rparr>) = 7
   \<and> sequence \<lparr>name = ''A'', sequence = ''XXA-CXX''\<rparr> ! 0 = CHR ''X''
   \<and> sequence \<lparr>name = ''A'', sequence = ''XXA-CXX''\<rparr> ! 3 = CHR ''-''
   \<and> isValidGene \<lparr>name = ''A'', sequence = ''XXA-CXX''\<rparr>"
proof -
  let ?g = "\<lparr>gname = ''G1'', gstart = 2, gend = 8\<rparr>"
  let ?s = "\<lparr>name = ''A'', sequence = ''G-?A-C--T''\<rparr>"
  let ?r = "\<lparr>name = ''A'', sequence = ''XXA-CXX''\<rparr>"
  let ?w = "window (sequence ?s) (gstart ?g) (gend ?g)"
  have h1: "1 \<le> gstart ?g" and h2: "gstart ?g \<le> gend ?g"
    and h3: "gend ?g \<le> int (length (sequence ?s))" by simp_all
  have w': "window ''G-?A-C--T'' 2 8 = ''-?A-C--''" by code_simp
  from w' have h4: "\<exists>c\<in>set ?w. c \<noteq> CHR ''-'' \<and> c \<noteq> CHR ''?''"
    and h5: "\<exists>c\<in>set ?w. c \<noteq> CHR ''-'' \<and> c \<noteq> CHR ''?'' \<and> c \<noteq> CHR ''X''"
    by simp_all
  have r: "extractGene ?s ?g = Inr ?r" by code_simp
  from extractGene_edge_gaps_only [OF h1 h2 h3 h4]
  have "\<forall>gene. extractGene ?s ?g = Inr gene \<longrightarrow>
      length (sequence gene) = length ?w
    \<and> (\<forall>i<length ?w.
          sequence gene ! i =
            (if i < lead_gaps ?w \<or> length ?w - trail_gaps ?w \<le> i \<or> ?w ! i = CHR ''?''
             then CHR ''X'' else ?w ! i))
    \<and> ((\<exists>c\<in>set ?w. c \<noteq> CHR ''-'' \<and> c \<noteq> CHR ''?'' \<and> c \<noteq> CHR ''X'')
         \<longrightarrow> isValidGene gene)"
    by (rule conjunct1)
  note t = this [rule_format, OF r]
  from t have tl: "length (sequence ?r) = length ?w" by (elim conjE)
  from t have tp: "\<forall>i<length ?w.
          sequence ?r ! i =
            (if i < lead_gaps ?w \<or> length ?w - trail_gaps ?w \<le> i \<or> ?w ! i = CHR ''?''
             then CHR ''X'' else ?w ! i)" by (elim conjE)
  from t have tv: "(\<exists>c\<in>set ?w. c \<noteq> CHR ''-'' \<and> c \<noteq> CHR ''?'' \<and> c \<noteq> CHR ''X'')
         \<longrightarrow> isValidGene ?r" by (elim conjE)
  have i0: "0 < length ?w" and i3: "3 < length ?w" by (simp_all add: w')
  have e0: "(if 0 < lead_gaps ?w \<or> length ?w - trail_gaps ?w \<le> 0 \<or> ?w ! 0 = CHR ''?''
             then CHR ''X'' else ?w ! 0) = CHR ''X''"
    by code_simp
  have e3: "(if 3 < lead_gaps ?w \<or> length ?w - trail_gaps ?w \<le> 3 \<or> ?w ! 3 = CHR ''?''
             then CHR ''X'' else ?w ! 3) = CHR ''-''"
    by code_simp
  from tp [rule_format, OF i0] e0 have r0: "sequence ?r ! 0 = CHR ''X''" by (rule trans)
  from tp [rule_format, OF i3] e3 have r3: "sequence ?r ! 3 = CHR ''-''" by (rule trans)
  from tl have len: "length (sequence ?r) = 7" by (simp add: w')
  from tv h5 have v: "isValidGene ?r" by (rule mp)
  from w' have w2: "window (sequence ?s) 2 8 = ''-?A-C--''" by simp
  from h1 h2 h3 w2 r len r0 r3 v show ?thesis by (intro conjI)
qed

section \<open>Facts about the aggregator\<close>

lemma valid_genes_of_Nil: "valid_genes_of s [] n = []"
  by (simp add: valid_genes_of_def)

lemma valid_genes_of_Cons:
  "valid_genes_of s (g # gs) n =
     (if gname g = n then filter isValidGene (returned (extractGene s g)) else [])
       @ valid_genes_of s gs n"
  by (simp add: valid_genes_of_def)

lemma addSpeciesToGeneArray_result:
  assumes "\<forall>g\<in>set gs. gname g \<in> dom d"
  shows "addSpeciesToGeneArray s gs d
       = (if \<forall>g\<in>set gs. \<exists>r. extractGene s g = Inr r
          then Inr (\<lambda>n. map_option (\<lambda>l. l @ valid_genes_of s gs n) (d n))
          else Inl OverflowError)"
  using assms
proof (induction gs arbitrary: d)
  case Nil
  have "(\<lambda>n. map_option (\<lambda>l. l @ valid_genes_of s [] n) (d n)) = d"
    by (rule ext) (simp add: valid_genes_of_Nil option.map_ident)
  then show ?case by simp
next
  case (Cons g gs)
  show ?case
  proof (cases "extractGene s g")
    case (Inl e)
    then have "e = OverflowError" by (rule extractGene_Inl)
    with Inl show ?thesis by auto
  next
    case (Inr gene)
    then have all: "(\<forall>g'\<in>set (g # gs). \<exists>r. extractGene s g' = Inr r)
        = (\<forall>g'\<in>set gs. \<exists>r. extractGene s g' = Inr r)"
      by simp
    show ?thesis
    proof (cases "isValidGene gene")
      case False
      from Cons.prems have "\<forall>g\<in>set gs. gname g \<in> dom d" by simp
      from Cons.IH [OF this] have ih: "addSpeciesToGeneArray s gs d
         = (if \<forall>g\<in>set gs. \<exists>r. extractGene s g = Inr r
            then Inr (\<lambda>n. map_option (\<lambda>l. l @ valid_genes_of s gs n) (d n))
            else Inl OverflowError)" .
      have "(\<lambda>n. map_option (\<lambda>l. l @ valid_genes_of s (g # gs) n) (d n))
          = (\<lambda>n. map_option (\<lambda>l. l @ valid_genes_of s gs n) (d n))"
        by (rule ext) (simp add: valid_genes_of_Cons Inr returned_def False)
      with ih Inr False show ?thesis
        unfolding all by simp
    next
      case True
      from Cons.prems obtain l where l: "d (gname g) = Some l" by auto
      define d' where "d' = d(gname g \<mapsto> l @ [gene])"
      from Cons.prems have "\<forall>g\<in>set gs. gname g \<in> dom d'" by (auto simp: d'_def)
      from Cons.IH [OF this] have ih: "addSpeciesToGeneArray s gs d'
         = (if \<forall>g\<in>set gs. \<exists>r. extractGene s g = Inr r
            then Inr (\<lambda>n. map_option (\<lambda>l. l @ valid_genes_of s gs n) (d' n))
            else Inl OverflowError)" .
      have "(\<lambda>n. map_option (\<lambda>l. l @ valid_genes_of s gs n) (d' n))
          = (\<lambda>n. map_option (\<lambda>l. l @ valid_genes_of s (g # gs) n) (d n))"
      proof (rule ext)
        fix n
        show "map_option (\<lambda>l. l @ valid_genes_of s gs n) (d' n)
            = map_option (\<lambda>l. l @ valid_genes_of s (g # gs) n) (d n)"
          using True l Inr
          by (cases "n = gname g") (auto simp: d'_def valid_genes_of_Cons returned_def)
      qed
      with ih Inr True l show ?thesis
        unfolding all by (simp add: d'_def)
    qed
  qed
qed

lemma add_species_list_result:
  assumes "\<forall>g\<in>set gi. gname g \<in> dom d"
  shows "add_species_list ss gi d
       = (if \<forall>s\<in>set ss. \<forall>g\<in>set gi. \<exists>r. extractGene s g = Inr r
          then Inr (\<lambda>n. map_option (\<lambda>l. l @ group_of ss gi n) (d n))
          else Inl OverflowError)"
  using assms
proof (induction ss arbitrary: d)
  case Nil
  have "(\<lambda>n. map_option (\<lambda>l. l @ group_of [] gi n) (d n)) = d"
    by (rule ext) (simp add: group_of_def option.map_ident)
  then show ?case by simp
next
  case (Cons s ss)
  show ?case
  proof (cases "\<forall>g\<in>set gi. \<exists>r. extractGene s g = Inr r")
    case False
    with Cons.prems have "addSpeciesToGeneArray s gi d = Inl OverflowError"
      by (simp add: addSpeciesToGeneArray_result)
    with False show ?thesis by auto
  next
    case True
    define d' where "d' = (\<lambda>n. map_option (\<lambda>l. l @ valid_genes_of s gi n) (d n))"
    from Cons.prems True have one: "addSpeciesToGeneArray s gi d = Inr d'"
      by (simp add: addSpeciesToGeneArray_result d'_def)
    from Cons.prems have "\<forall>g\<in>set gi. gname g \<in> dom d'"
      by (auto simp: d'_def)
    from Cons.IH [OF this] have ih: "add_species_list ss gi d'
       = (if \<forall>s\<in>set ss. \<forall>g\<in>set gi. \<exists>r. extractGene s g = Inr r
          then Inr (\<lambda>n. map_option (\<lambda>l. l @ group_of ss gi n) (d' n))
          else Inl OverflowError)" .
    have eq: "(\<lambda>n. map_option (\<lambda>l. l @ group_of ss gi n) (d' n))
        = (\<lambda>n. map_option (\<lambda>l. l @ group_of (s # ss) gi n) (d n))"
      by (rule ext) (simp add: d'_def group_of_def option.map_comp comp_def)
    from True have all: "(\<forall>s'\<in>set (s # ss). \<forall>g\<in>set gi. \<exists>r. extractGene s' g = Inr r)
        = (\<forall>s'\<in>set ss. \<forall>g\<in>set gi. \<exists>r. extractGene s' g = Inr r)"
      by simp
    from one ih eq show ?thesis
      unfolding all by simp
  qed
qed

lemma init_gene_species_result:
  "init_gene_species gs d = (\<lambda>n. if n \<in> gname ` set gs then Some [] else d n)"
proof (induction gs arbitrary: d)
  case Nil
  show ?case by simp
next
  case (Cons g gs)
  show ?case by (rule ext) (simp add: Cons.IH)
qed

lemma processFastaFile_result:
  "processFastaFile ss gi
     = (if \<forall>s\<in>set ss. \<forall>g\<in>set gi. \<exists>r. extractGene s g = Inr r
        then Inr (\<lambda>n. if n \<in> gname ` set gi then Some (group_of ss gi n) else None)
        else Inl OverflowError)"
proof -
  define d0 where "d0 = init_gene_species gi Map.empty"
  have d0: "d0 = (\<lambda>n. if n \<in> gname ` set gi then Some [] else None)"
    unfolding d0_def by (rule init_gene_species_result)
  then have "\<forall>g\<in>set gi. gname g \<in> dom d0" by auto
  then have "add_species_list ss gi d0
      = (if \<forall>s\<in>set ss. \<forall>g\<in>set gi. \<exists>r. extractGene s g = Inr r
          then Inr (\<lambda>n. map_option (\<lambda>l. l @ group_of ss gi n) (d0 n))
          else Inl OverflowError)"
    by (rule add_species_list_result)
  moreover have "(\<lambda>n. map_option (\<lambda>l. l @ group_of ss gi n) (d0 n))
      = (\<lambda>n. if n \<in> gname ` set gi then Some (group_of ss gi n) else None)"
    by (rule ext) (simp add: d0)
  ultimately show ?thesis by (simp add: processFastaFile_def d0_def)
qed

lemma filter_same_key_distinct:
  assumes "distinct (map f xs)" and "x \<in> set xs"
  shows "filter (\<lambda>y. f y = f x) xs = [x]"
  using assms
proof (induction xs)
  case Nil
  then show ?case by simp
next
  case (Cons a xs)
  show ?case
  proof (cases "a = x")
    case True
    with Cons.prems have "f x \<notin> f ` set xs" by simp
    then have "\<forall>y\<in>set xs. f y \<noteq> f x" by (metis imageI)
    then have "filter (\<lambda>y. f y = f x) xs = []" by (simp add: filter_empty_conv)
    with True show ?thesis by simp
  next
    case False
    with Cons.prems have "x \<in> set xs" and "distinct (map f xs)" and "f a \<noteq> f x"
      by (auto simp: image_iff)
    with Cons.IH show ?thesis by simp
  qed
qed

lemma group_of_distinct:
  assumes "distinct (map gname gi)" and "g \<in> set gi"
  shows "group_of ss gi (gname g)
       = filter isValidGene (concat (map (\<lambda>s. returned (extractGene s g)) ss))"
proof -
  from assms have "filter (\<lambda>y. gname y = gname g) gi = [g]"
    by (rule filter_same_key_distinct)
  then have one: "valid_genes_of s gi (gname g) = filter isValidGene (returned (extractGene s g))" for s
    by (simp add: valid_genes_of_def)
  show ?thesis
    unfolding group_of_def one by (induction ss) simp_all
qed

lemma results_in_order:
  assumes "\<forall>s\<in>set ss. \<exists>r. extractGene s g = Inr r"
  shows "map (\<lambda>s. extractGene s g) ss
       = map Inr (concat (map (\<lambda>s. returned (extractGene s g)) ss))"
  using assms
proof (induction ss)
  case Nil
  show ?case by simp
next
  case (Cons s ss)
  then obtain r where "extractGene s g = Inr r" by auto
  with Cons show ?case by (simp add: returned_def)
qed

lemma group_of_empty:
  assumes "\<forall>s\<in>set ss. \<forall>g\<in>set gi. gname g = n \<longrightarrow>
             (\<forall>gene. extractGene s g = Inr gene \<longrightarrow> \<not> isValidGene gene)"
  shows "group_of ss gi n = []"
proof -
  have "valid_genes_of s gi n = []" if "s \<in> set ss" for s
  proof -
    have "\<not> isValidGene x"
      if "x \<in> set (concat (map (\<lambda>g. returned (extractGene s g)) (filter (\<lambda>g. gname g = n) gi)))"
      for x
    proof -
      from that obtain g where "g \<in> set gi" and "gname g = n"
        and "x \<in> set (returned (extractGene s g))" by auto
      moreover from this have "extractGene s g = Inr x"
        by (cases "extractGene s g") (simp_all add: returned_def)
      ultimately show ?thesis using assms \<open>s \<in> set ss\<close> by blast
    qed
    then show ?thesis by (simp add: valid_genes_of_def filter_empty_conv)
  qed
  then show ?thesis by (simp add: group_of_def)
qed

section \<open>Groups built by the aggregator\<close>

text \<open>
  Claim C5.  For every list of species and every list of gene ranges, the mapping that
  the aggregation produces (an empty group stored under each gene name, then the
  species one at a time, each with all gene ranges) has exactly the gene names of the
  index as its keys.  The group of a name holds the extracted genes of that name that
  \<open>isValidGene\<close> accepts, in the order of the species list: when the names of the index
  are distinct, the group of a gene range is the list of its valid \<open>extractGene\<close>
  results over the species.  A name without any valid gene is a key with the empty
  group.  The mapping is produced whenever every call of \<open>extractGene\<close> returns, as it
  does when every range has \<open>1 \<le> start \<le> end\<close> and a length that fits an index-sized
  integer; \<open>KeyError\<close> is never raised.
\<close>

theorem processFastaFile_groups:
  "(\<forall>m. processFastaFile species_list gene_indexes = Inr m \<longrightarrow>
       dom m = gname ` set gene_indexes
     \<and> (\<forall>n\<in>gname ` set gene_indexes. m n = Some (group_of species_list gene_indexes n))
     \<and> (distinct (map gname gene_indexes) \<longrightarrow>
          (\<forall>g\<in>set gene_indexes. \<exists>genes.
             map (\<lambda>s. extractGene s g) species_list = map Inr genes
             \<and> m (gname g) = Some (filter isValidGene genes)))
     \<and> (\<forall>n\<in>gname ` set gene_indexes.
          (\<forall>s\<in>set species_list. \<forall>g\<in>set gene_indexes.
             gname g = n \<longrightarrow> (\<forall>gene. extractGene s g = Inr gene \<longrightarrow> \<not> isValidGene gene))
          \<longrightarrow> m n = Some []))
   \<and> ((\<forall>s\<in>set species_list. \<forall>g\<in>set gene_indexes. \<exists>gene. extractGene s g = Inr gene)
        \<longrightarrow> (\<exists>m. processFastaFile species_list gene_indexes = Inr m))
   \<and> ((\<forall>g\<in>set gene_indexes. 1 \<le> gstart g \<and> gstart g \<le> gend g
                                \<and> gend g - gstart g + 1 \<le> maxsize)
        \<longrightarrow> (\<exists>m. processFastaFile species_list gene_indexes = Inr m))
   \<and> processFastaFile species_list gene_indexes \<noteq> Inl KeyError"
proof -
  let ?all = "\<forall>s\<in>set species_list. \<forall>g\<in>set gene_indexes. \<exists>r. extractGene s g = Inr r"
  define m0 where
    "m0 = (\<lambda>n. if n \<in> gname ` set gene_indexes then Some (group_of species_list gene_indexes n)
                else None)"
  have res: "processFastaFile species_list gene_indexes = (if ?all then Inr m0 else Inl OverflowError)"
    unfolding m0_def by (rule processFastaFile_result)
  have a: "dom m = gname ` set gene_indexes
     \<and> (\<forall>n\<in>gname ` set gene_indexes. m n = Some (group_of species_list gene_indexes n))
     \<and> (distinct (map gname gene_indexes) \<longrightarrow>
          (\<forall>g\<in>set gene_indexes. \<exists>genes.
             map (\<lambda>s. extractGene s g) species_list = map Inr genes
             \<and> m (gname g) = Some (filter isValidGene genes)))
     \<and> (\<forall>n\<in>gname ` set gene_indexes.
          (\<forall>s\<in>set species_list. \<forall>g\<in>set gene_indexes.
             gname g = n \<longrightarrow> (\<forall>gene. extractGene s g = Inr gene \<longrightarrow> \<not> isValidGene gene))
          \<longrightarrow> m n = Some [])"
    if ret: "processFastaFile species_list gene_indexes = Inr m" for m
  proof -
    from ret res have all: ?all by (cases ?all) simp_all
    with ret res have m: "m = m0" by simp
    have d: "dom m = gname ` set gene_indexes"
      by (auto simp: m m0_def split: if_splits)
    have g: "\<forall>n\<in>gname ` set gene_indexes. m n = Some (group_of species_list gene_indexes n)"
      by (simp add: m m0_def)
    have u: "\<exists>genes. map (\<lambda>s. extractGene s g) species_list = map Inr genes
             \<and> m (gname g) = Some (filter isValidGene genes)"
      if dist: "distinct (map gname gene_indexes)" and gin: "g \<in> set gene_indexes" for g
    proof -
      define genes where "genes = concat (map (\<lambda>s. returned (extractGene s g)) species_list)"
      from all gin have "\<forall>s\<in>set species_list. \<exists>r. extractGene s g = Inr r" by blast
      then have "map (\<lambda>s. extractGene s g) species_list = map Inr genes"
        unfolding genes_def by (rule results_in_order)
      moreover from gin have "m (gname g) = Some (filter isValidGene genes)"
        by (simp add: m m0_def group_of_distinct [OF dist gin] genes_def)
      ultimately show ?thesis by blast
    qed
    have e: "m n = Some []"
      if "n \<in> gname ` set gene_indexes"
        and "\<forall>s\<in>set species_list. \<forall>g\<in>set gene_indexes.
               gname g = n \<longrightarrow> (\<forall>gene. extractGene s g = Inr gene \<longrightarrow> \<not> isValidGene gene)" for n
      using that(1) group_of_empty [OF that(2)] by (simp add: m m0_def)
    from d g u e show ?thesis by blast
  qed
  have b: "\<exists>m. processFastaFile species_list gene_indexes = Inr m" if ?all
    using res that by simp
  have c: "\<exists>m. processFastaFile species_list gene_indexes = Inr m"
    if small: "\<forall>g\<in>set gene_indexes. 1 \<le> gstart g \<and> gstart g \<le> gend g
                                \<and> gend g - gstart g + 1 \<le> maxsize"
  proof -
    have ?all
    proof (intro ballI)
      fix s g
      assume "g \<in> set gene_indexes"
      with small have "1 \<le> gstart g" and "gstart g \<le> gend g"
        and "gend g - gstart g + 1 \<le> maxsize" by blast+
      then have "extractGene s g = Inr (extracted s g)" by (rule extractGene_returns)
      then show "\<exists>r. extractGene s g = Inr r" ..
    qed
    then show ?thesis by (rule b)
  qed
  have k: "processFastaFile species_list gene_indexes \<noteq> Inl KeyError"
    using res by (cases ?all) simp_all
  from a b c k show ?thesis by blast
qed

theorem processFastaFile_groups_witness:
  "distinct (map gname [\<lparr>gname = ''G1'', gstart = 1, gend = 2\<rparr>, \<lparr>gname = ''G2'', gstart = 3, gend = 4\<rparr>])
   \<and> (\<exists>m. processFastaFile
              [\<lparr>name = ''A'', sequence = ''AC--GT''\<rparr>, \<lparr>name = ''B'', sequence = ''-G-?CA''\<rparr>]
              [\<lparr>gname = ''G1'', gstart = 1, gend = 2\<rparr>, \<lparr>gname = ''G2'', gstart = 3, gend = 4\<rparr>]
            = Inr m
          \<and> m ''G1'' = Some [\<lparr>name = ''A'', sequence = ''AC''\<rparr>, \<lparr>name = ''B'', sequence = ''XG''\<rparr>]
          \<and> m ''G2'' = Some []
          \<and> m ''G3'' = None)"
proof -
  let ?g1 = "\<lparr>gname = ''G1'', gstart = 1, gend = 2\<rparr>"
  let ?g2 = "\<lparr>gname = ''G2'', gstart = 3, gend = 4\<rparr>"
  let ?gi = "[?g1, ?g2]"
  let ?a = "\<lparr>name = ''A'', sequence = ''AC--GT''\<rparr>"
  let ?b = "\<lparr>name = ''B'', sequence = ''-G-?CA''\<rparr>"
  let ?sl = "[?a, ?b]"
  let ?ra = "\<lparr>name = ''A'', sequence = ''AC''\<rparr>"
  let ?rb = "\<lparr>name = ''B'', sequence = ''XG''\<rparr>"
  note T = processFastaFile_groups [of ?sl ?gi]
  have dist: "distinct (map gname ?gi)" by simp
  have small: "\<forall>g\<in>set ?gi. 1 \<le> gstart g \<and> gstart g \<le> gend g \<and> gend g - gstart g + 1 \<le> maxsize"
    by (simp add: maxsize_def)
  from T [THEN conjunct2, THEN conjunct2, THEN conjunct1, THEN mp, OF small]
  obtain m where r: "processFastaFile ?sl ?gi = Inr m" ..
  note p = T [THEN conjunct1, THEN spec, THEN mp, OF r]
  note d = p [THEN conjunct1]
  note u = p [THEN conjunct2, THEN conjunct2, THEN conjunct1, THEN mp, OF dist]
  note e = p [THEN conjunct2, THEN conjunct2, THEN conjunct2]
  have "?g1 \<in> set ?gi" by simp
  from u [THEN bspec, OF this] obtain genes where
    ge: "map (\<lambda>s. extractGene s ?g1) ?sl = map Inr genes"
    and mg: "m (gname ?g1) = Some (filter isValidGene genes)"
    by (elim exE conjE)
  have ev: "map (\<lambda>s. extractGene s ?g1) ?sl = map Inr [?ra, ?rb]" by code_simp
  from ge [symmetric] ev
  have "map Inr genes = (map Inr [?ra, ?rb] :: (py_error + SpeciesInfo) list)" by (rule trans)
  then have genes: "genes = [?ra, ?rb]" using inj_Inr by (rule map_injective)
  have fv: "filter isValidGene [?ra, ?rb] = [?ra, ?rb]" by code_simp
  from mg genes fv have m1: "m ''G1'' = Some [?ra, ?rb]" by simp
  have ea: "extractGene ?a ?g2 = Inr \<lparr>name = ''A'', sequence = ''XX''\<rparr>"
    and eb: "extractGene ?b ?g2 = Inr \<lparr>name = ''B'', sequence = ''XX''\<rparr>"
    and na: "\<not> isValidGene \<lparr>name = ''A'', sequence = ''XX''\<rparr>"
    and nb: "\<not> isValidGene \<lparr>name = ''B'', sequence = ''XX''\<rparr>"
    by code_simp+
  from ea eb na nb
  have none: "\<forall>s\<in>set ?sl. \<forall>g\<in>set ?gi. gname g = ''G2'' \<longrightarrow>
      (\<forall>gene. extractGene s g = Inr gene \<longrightarrow> \<not> isValidGene gene)"
    by simp
  have "''G2'' \<in> gname ` set ?gi" by simp
  from e [THEN bspec, OF this, THEN mp, OF none] have m2: "m ''G2'' = Some []" .
  have "''G3'' \<notin> gname ` set ?gi" by simp
  with d have "''G3'' \<notin> dom m" by simp
  then have m3: "m ''G3'' = None" by (simp add: domIff)
  from r m1 m2 m3 have "\<exists>m. processFastaFile ?sl ?gi = Inr m
          \<and> m ''G1'' = Some [?ra, ?rb]
          \<and> m ''G2'' = Some []
          \<and> m ''G3'' = None"
    by - (rule exI [of _ m], intro conjI, assumption+)
  with dist show ?thesis by (rule conjI)
qed

end
